theory Spec2Isabelle
  imports Main "HOL-Library.Sublist"
begin

section \<open>JavaScript string primitives used by the sources\<close>

text \<open>
  A JavaScript string is a sequence of 16-bit code units. The model uses \<open>string\<close>
  (\<open>char list\<close>), one \<open>char\<close> per code unit, which covers the code units 0 to 255:
  the markers, the path separator, the newline and the replacement patterns of the
  sources all lie in that range. Text that holds a code unit above 255 is outside the
  model.
\<close>

abbreviation NL :: char where
  "NL \<equiv> CHR 0x0A"

text \<open>The double quote.\<close>

abbreviation DQ :: char where
  "DQ \<equiv> CHR 0x22"

text \<open>
  \<^verbatim>\<open>s.indexOf(pat)\<close>: the least index at which \<open>pat\<close> occurs in \<open>s\<close>; JavaScript's
  \<^verbatim>\<open>-1\<close> is \<open>None\<close>. The empty pattern is found at index 0.
\<close>

fun indexOf :: "string \<Rightarrow> string \<Rightarrow> nat option" where
  "indexOf [] pat = (if pat = [] then Some 0 else None)"
| "indexOf (c # cs) pat =
     (if prefix pat (c # cs) then Some 0 else map_option Suc (indexOf cs pat))"

text \<open>
  \<^verbatim>\<open>s.slice(from, to)\<close> for non-negative arguments: both ends are clamped to the
  length, and an end before the start gives the empty string.
\<close>

definition slice :: "string \<Rightarrow> nat \<Rightarrow> nat \<Rightarrow> string" where
  "slice s from to = take (to - from) (drop from s)"

text \<open>
  \<^verbatim>\<open>GetSubstitution\<close> of ECMAScript for a string pattern (no capture groups, no named
  groups): in the replacement text \<^verbatim>\<open>$$\<close> stands for a dollar sign, \<^verbatim>\<open>$&\<close> for the
  matched text, \<^verbatim>\<open>$`\<close> for the text before the match and \<^verbatim>\<open>$'\<close> for the text after
  it; a dollar sign followed by anything else is copied as it is.
\<close>

fun getSubstitution :: "string \<Rightarrow> string \<Rightarrow> string \<Rightarrow> string \<Rightarrow> string" where
  "getSubstitution matched preceding following [] = []"
| "getSubstitution matched preceding following [c] = [c]"
| "getSubstitution matched preceding following (c # d # ds) =
     (if c = CHR ''$'' then
        (if d = CHR ''$'' then CHR ''$'' # getSubstitution matched preceding following ds
         else if d = CHR ''&'' then matched @ getSubstitution matched preceding following ds
         else if d = CHR 0x60 then preceding @ getSubstitution matched preceding following ds
         else if d = CHR 0x27 then following @ getSubstitution matched preceding following ds
         else c # getSubstitution matched preceding following (d # ds))
      else c # getSubstitution matched preceding following (d # ds))"

text \<open>
  \<^verbatim>\<open>s.replace(pat, rep)\<close> with a string pattern: only the first occurrence of \<open>pat\<close>
  is replaced, by the substitution computed from \<open>rep\<close>; without an occurrence the
  string is returned as it is.
\<close>

definition replaceStr :: "string \<Rightarrow> string \<Rightarrow> string \<Rightarrow> string" where
  "replaceStr s pat rep =
     (case indexOf s pat of
        None \<Rightarrow> s
      | Some i \<Rightarrow>
          take i s
          @ getSubstitution pat (take i s) (drop (i + length pat) s) rep
          @ drop (i + length pat) s)"

text \<open>
  \<^verbatim>\<open>s.replace(/\n{3,}/g, "\n\n")\<close>: scanning from the left, every match of three or
  more newlines (the quantifier is greedy, so a match takes the whole run) is replaced
  by two newlines; every other code unit is copied.
\<close>

function collapseNewlines :: "string \<Rightarrow> string" where
  "collapseNewlines [] = []"
| "collapseNewlines (c # cs) =
     (if c = NL \<and> prefix [NL, NL] cs
      then NL # NL # collapseNewlines (dropWhile (\<lambda>x. x = NL) cs)
      else c # collapseNewlines cs)"
  by pat_completeness auto
termination
  by (relation "measure length") (auto simp: less_Suc_eq_le length_dropWhile_le)

text \<open>
  \<^verbatim>\<open>s.trim()\<close> removes the leading and trailing WhiteSpace and LineTerminator code
  units; below 256 these are tab, line feed, vertical tab, form feed, carriage return,
  space and the no-break space.
\<close>

definition isWhiteSpace :: "char \<Rightarrow> bool" where
  "isWhiteSpace c \<longleftrightarrow>
     c = CHR 0x09 \<or> c = CHR 0x0A \<or> c = CHR 0x0B \<or> c = CHR 0x0C \<or> c = CHR 0x0D
     \<or> c = CHR 0x20 \<or> c = CHR 0xA0"

definition trim :: "string \<Rightarrow> string" where
  "trim s = rev (dropWhile isWhiteSpace (rev (dropWhile isWhiteSpace s)))"


section \<open>JavaScript numbers\<close>

text \<open>
  A JavaScript number is an IEEE 754 binary64 value. Every finite binary64 value is an
  integer multiple of the smallest positive one, \<^verbatim>\<open>2^-1074\<close>, and \<open>Fin n\<close> stands for
  \<open>n\<close> of these units; a multiple is a binary64 value when it has at most 53
  significant bits and stays below \<^verbatim>\<open>2^1024\<close>, that is below \<^verbatim>\<open>2^2098\<close> units. \<open>NaN\<close>
  is also what arithmetic makes of \<^verbatim>\<open>undefined\<close>, a field missing from a parsed JSON
  document. The sign of zero is not modelled: no operation below observes it.
\<close>

datatype jsNumber = NaN | PosInf | NegInf | Fin int

text \<open>The number of binary digits of a natural number.\<close>

fun bitLength :: "nat \<Rightarrow> nat" where
  "bitLength n = (if n = 0 then 0 else Suc (bitLength (n div 2)))"

declare bitLength.simps [simp del]

text \<open>Rounding to 53 significant bits, to nearest, ties to the even significand.\<close>

definition roundNat :: "nat \<Rightarrow> nat" where
  "roundNat n =
     (let k = bitLength n
      in if k \<le> 53 then n
         else (let s = k - 53; q = n div 2 ^ s; r = n mod 2 ^ s; h = 2 ^ (s - 1)
               in (if r > h \<or> (r = h \<and> odd q) then q + 1 else q) * 2 ^ s))"

definition roundInt :: "int \<Rightarrow> int" where
  "roundInt x = (if x < 0 then - int (roundNat (nat \<bar>x\<bar>)) else int (roundNat (nat \<bar>x\<bar>)))"

text \<open>The binary64 value of an exact result given in units; overflow gives an infinity.\<close>

definition roundDouble :: "int \<Rightarrow> jsNumber" where
  "roundDouble x =
     (let m = roundNat (nat \<bar>x\<bar>)
      in if m \<ge> 2 ^ 2098 then (if x < 0 then NegInf else PosInf)
         else Fin (if x < 0 then - int m else int m))"

text \<open>\<^verbatim>\<open>a - b\<close> on numbers.\<close>

fun jsSub :: "jsNumber \<Rightarrow> jsNumber \<Rightarrow> jsNumber" where
  "jsSub NaN _ = NaN"
| "jsSub _ NaN = NaN"
| "jsSub PosInf PosInf = NaN"
| "jsSub NegInf NegInf = NaN"
| "jsSub PosInf _ = PosInf"
| "jsSub NegInf _ = NegInf"
| "jsSub (Fin a) PosInf = NegInf"
| "jsSub (Fin a) NegInf = PosInf"
| "jsSub (Fin a) (Fin b) = roundDouble (a - b)"

text \<open>\<^verbatim>\<open>a >= b\<close> on numbers: false whenever an operand is \<open>NaN\<close>.\<close>

fun jsGe :: "jsNumber \<Rightarrow> jsNumber \<Rightarrow> bool" where
  "jsGe NaN _ = False"
| "jsGe _ NaN = False"
| "jsGe PosInf _ = True"
| "jsGe _ NegInf = True"
| "jsGe NegInf _ = False"
| "jsGe (Fin a) PosInf = False"
| "jsGe (Fin a) (Fin b) = (a \<ge> b)"

text \<open>
  The number that is the integer \<open>n\<close>, for an \<open>n\<close> that binary64 holds exactly (every
  integer up to \<^verbatim>\<open>2^53\<close> in magnitude, and the even ones for a while beyond).
\<close>

definition ofInt :: "int \<Rightarrow> jsNumber" where
  "ofInt n = Fin (n * 2 ^ 1074)"


section \<open>The cache store: expiry\<close>

text \<open>
  \<^verbatim>\<open>isExpired(timestamp, ttlMs)\<close> reads the clock (\<^verbatim>\<open>Date.now()\<close>); the model takes the
  clock value as its first argument. The subtraction and the comparison are those of
  JavaScript numbers.
\<close>

definition INDEX_TTL_MS :: jsNumber where
  "INDEX_TTL_MS = ofInt (5 * 60 * 1000)"

definition HINT_TTL_MS :: jsNumber where
  "HINT_TTL_MS = ofInt (24 * 60 * 60 * 1000)"

definition isExpired :: "jsNumber \<Rightarrow> jsNumber \<Rightarrow> jsNumber \<Rightarrow> bool" where
  "isExpired now timestamp ttlMs = jsGe (jsSub now timestamp) ttlMs"


section \<open>Agent configuration and the section transformer\<close>

datatype agentHeader = Fixed string | Dynamic "string \<Rightarrow> string"

record agentConfig =
  name :: string
  description :: string
  path :: string
  header :: "agentHeader option"
  appendMode :: bool
  transform :: "(string \<Rightarrow> string \<Rightarrow> string) option"

text \<open>
  \<^verbatim>\<open>resolveAgentHeader\<close>: \<^verbatim>\<open>!agent.header\<close> holds for a missing header and for the
  empty string; a function is always truthy.
\<close>

definition resolveAgentHeader :: "agentConfig \<Rightarrow> string \<Rightarrow> string option" where
  "resolveAgentHeader agent hintName =
     (case header agent of
        None \<Rightarrow> None
      | Some (Fixed h) \<Rightarrow> if h = [] then None else Some h
      | Some (Dynamic f) \<Rightarrow> Some (f hintName))"

record transformResult =
  content :: string
  resPath :: string
  resAppendMode :: bool

definition sectionStart :: "string \<Rightarrow> string" where
  "sectionStart hintName = ''<!-- agenthints:'' @ hintName @ '':start -->''"

definition sectionEnd :: "string \<Rightarrow> string" where
  "sectionEnd hintName = ''<!-- agenthints:'' @ hintName @ '':end -->''"

definition wrapInSection :: "string \<Rightarrow> string \<Rightarrow> string" where
  "wrapInSection cont hintName =
     sectionStart hintName @ [NL] @ cont @ [NL] @ sectionEnd hintName"

text \<open>
  \<^verbatim>\<open>transformForAgent\<close>: header, then custom transform, then section wrap.
  \<^verbatim>\<open>if (header)\<close> is false for an absent header and for the empty string.
\<close>

definition transformForAgent ::
  "string \<Rightarrow> string \<Rightarrow> agentConfig \<Rightarrow> string \<Rightarrow> transformResult" where
  "transformForAgent cont hintName agent resolvedPath =
     (let t0 = cont;
          t1 = (case resolveAgentHeader agent hintName of
                  None \<Rightarrow> t0
                | Some h \<Rightarrow> if h = [] then t0 else h @ [NL, NL] @ t0);
          t2 = (case transform agent of None \<Rightarrow> t1 | Some f \<Rightarrow> f t1 hintName);
          t3 = (if appendMode agent then wrapInSection t2 hintName else t2)
      in \<lparr> content = t3, resPath = resolvedPath, resAppendMode = appendMode agent \<rparr>)"

text \<open>
  \<^verbatim>\<open>extractSection\<close>: the first start marker paired with the first end marker;
  \<open>None\<close> is the source's \<^verbatim>\<open>null\<close>.
\<close>

definition extractSection :: "string \<Rightarrow> string \<Rightarrow> string option" where
  "extractSection fileContent hintName =
     (case indexOf fileContent (sectionStart hintName) of
        None \<Rightarrow> None
      | Some startIndex \<Rightarrow>
          (case indexOf fileContent (sectionEnd hintName) of
             None \<Rightarrow> None
           | Some endIndex \<Rightarrow>
               if startIndex \<ge> endIndex then None
               else Some (slice fileContent startIndex
                            (endIndex + length (sectionEnd hintName)))))"

text \<open>
  \<^verbatim>\<open>removeSection\<close>: \<^verbatim>\<open>!section\<close> holds for \<^verbatim>\<open>null\<close> and for the empty string.
\<close>

definition removeSection :: "string \<Rightarrow> string \<Rightarrow> string" where
  "removeSection fileContent hintName =
     (case extractSection fileContent hintName of
        None \<Rightarrow> fileContent
      | Some section \<Rightarrow>
          if section = [] then fileContent
          else trim (collapseNewlines (replaceStr fileContent section [])))"

definition upsertSection :: "string \<Rightarrow> string \<Rightarrow> string \<Rightarrow> string" where
  "upsertSection fileContent hintName newSection =
     (let existing = extractSection fileContent hintName;
          found = (case existing of None \<Rightarrow> False | Some s \<Rightarrow> s \<noteq> [])
      in if found then replaceStr fileContent (the existing) newSection
         else (let trimmedContent = trim fileContent
               in if length trimmedContent = 0 then newSection
                  else trimmedContent @ [NL, NL] @ newSection))"


text \<open>
  The collapse as the specification words it: every maximal run of three or more
  consecutive newlines becomes exactly two newlines; shorter runs and every other code
  unit stay as they are.
\<close>

function spec_collapseRuns :: "string \<Rightarrow> string" where
  "spec_collapseRuns s =
     (let n = length (takeWhile (\<lambda>x. x = NL) s);
          rest = dropWhile (\<lambda>x. x = NL) s
      in (if n \<ge> 3 then [NL, NL] else replicate n NL)
         @ (case rest of [] \<Rightarrow> [] | c # cs \<Rightarrow> c # spec_collapseRuns cs))"
  by pat_completeness auto
termination
proof (relation "measure length")
  show "wf (measure length)" by simp
next
  fix s :: string and n rest c cs
  assume "rest = dropWhile (\<lambda>x. x = NL) s" and "rest = c # cs"
  then have "length (c # cs) \<le> length s"
    using length_dropWhile_le [of "\<lambda>x. x = NL" s] by simp
  then show "(cs, s) \<in> measure length" by simp
qed

declare spec_collapseRuns.simps [simp del]

text \<open>
  The rendering before the section wrap, as the specification words it: the header is
  the fixed text or the header function applied to the slug; if a header is present
  (a non-empty text), the header and a blank line are put before the content; then the
  custom transform, if present, is applied to the result and the slug.
\<close>

definition spec_rendered :: "string \<Rightarrow> string \<Rightarrow> agentConfig \<Rightarrow> string" where
  "spec_rendered cont slug agent =
     (let h = (case header agent of
                 None \<Rightarrow> []
               | Some (Fixed s) \<Rightarrow> s
               | Some (Dynamic f) \<Rightarrow> f slug);
          prefixed = (if h = [] then cont else h @ [NL, NL] @ cont)
      in case transform agent of None \<Rightarrow> prefixed | Some f \<Rightarrow> f prefixed slug)"

text \<open>
  The special replacement patterns of \<^verbatim>\<open>String.prototype.replace\<close>: a dollar sign
  followed by a dollar sign, an ampersand, a backtick or an apostrophe.
\<close>

fun hasSubstPattern :: "string \<Rightarrow> bool" where
  "hasSubstPattern (c # d # ds) =
     ((c = CHR ''$'' \<and> (d = CHR ''$'' \<or> d = CHR ''&'' \<or> d = CHR 0x60 \<or> d = CHR 0x27))
      \<or> hasSubstPattern (d # ds))"
| "hasSubstPattern _ = False"


section \<open>Path resolution\<close>

text \<open>
  \<^verbatim>\<open>path.resolve\<close> of Node.js on POSIX, which \<^verbatim>\<open>resolvePath\<close> calls: the arguments are
  joined from the right until an absolute one is met (the process's working directory
  comes last), then the segments are normalised: empty segments and \<^verbatim>\<open>.\<close> are dropped,
  \<^verbatim>\<open>..\<close> removes the segment before it, and above the root of an absolute path \<^verbatim>\<open>..\<close>
  is dropped. \<^verbatim>\<open>sep\<close> is the slash.
\<close>

fun splitSlash :: "string \<Rightarrow> string list" where
  "splitSlash [] = [[]]"
| "splitSlash (c # cs) =
     (if c = CHR ''/'' then [] # splitSlash cs
      else (case splitSlash cs of [] \<Rightarrow> [[c]] | s # ss \<Rightarrow> (c # s) # ss))"

fun joinSlash :: "string list \<Rightarrow> string" where
  "joinSlash [] = []"
| "joinSlash [s] = s"
| "joinSlash (s # t # ss) = s @ CHR ''/'' # joinSlash (t # ss)"

text \<open>The stack \<open>st\<close> holds the segments kept so far, the last one first.\<close>

fun normalizeSegs :: "bool \<Rightarrow> string list \<Rightarrow> string list \<Rightarrow> string list" where
  "normalizeSegs allowAboveRoot st [] = rev st"
| "normalizeSegs allowAboveRoot st (s # ss) =
     (if s = [] \<or> s = ''.'' then normalizeSegs allowAboveRoot st ss
      else if s = ''..'' then
        (case st of
           t # ts \<Rightarrow>
             if t \<noteq> ''..'' then normalizeSegs allowAboveRoot ts ss
             else if allowAboveRoot then normalizeSegs allowAboveRoot (''..'' # st) ss
             else normalizeSegs allowAboveRoot st ss
         | [] \<Rightarrow>
             if allowAboveRoot then normalizeSegs allowAboveRoot [''..''] ss
             else normalizeSegs allowAboveRoot [] ss)
      else normalizeSegs allowAboveRoot (s # st) ss)"

text \<open>
  The joining loop of \<^verbatim>\<open>path.resolve\<close>; the list holds the arguments from the last to
  the first, followed by the process's working directory.
\<close>

fun resolveLoop :: "string list \<Rightarrow> string \<Rightarrow> string \<times> bool" where
  "resolveLoop [] acc = (acc, False)"
| "resolveLoop (p # ps) acc =
     (if p = [] then resolveLoop ps acc
      else if hd p = CHR ''/'' then (p @ CHR ''/'' # acc, True)
      else resolveLoop ps (p @ CHR ''/'' # acc))"

definition pathResolve :: "string \<Rightarrow> string list \<Rightarrow> string" where
  "pathResolve procCwd args =
     (case resolveLoop (rev args @ [procCwd]) [] of
        (resolvedPath, resolvedAbsolute) \<Rightarrow>
          (let normalized =
                 joinSlash (normalizeSegs (\<not> resolvedAbsolute) [] (splitSlash resolvedPath))
           in if resolvedAbsolute then CHR ''/'' # normalized
              else if normalized \<noteq> [] then normalized else ''.''))"

text \<open>
  \<^verbatim>\<open>path.normalize\<close> and \<^verbatim>\<open>path.join\<close> of Node.js on POSIX, which the cache store
  calls: \<^verbatim>\<open>join\<close> puts a slash between its non-empty arguments and normalises the
  result; \<^verbatim>\<open>normalize\<close> keeps a leading and a trailing slash and resolves the dot
  segments in between.
\<close>

definition pathNormalize :: "string \<Rightarrow> string" where
  "pathNormalize p =
     (if p = [] then ''.''
      else (let isAbsolute = (hd p = CHR ''/'');
                trailingSeparator = (last p = CHR ''/'');
                normalized = joinSlash (normalizeSegs (\<not> isAbsolute) [] (splitSlash p))
            in if normalized = [] then
                 (if isAbsolute then ''/'' else if trailingSeparator then ''./'' else ''.'')
               else (let withSep = (if trailingSeparator then normalized @ ''/'' else normalized)
                     in if isAbsolute then CHR ''/'' # withSep else withSep)))"

definition pathJoin :: "string list \<Rightarrow> string" where
  "pathJoin args =
     (let parts = filter (\<lambda>a. a \<noteq> []) args
      in if parts = [] then ''.'' else pathNormalize (joinSlash parts))"

text \<open>
  A JavaScript exception: \<open>Error\<close> is \<^verbatim>\<open>new Error(message)\<close>, the only exception the
  sources construct; \<open>SystemError\<close> stands for a rejection raised by the platform
  (file system, network, JSON parser).
\<close>

datatype jsError = Error string | SystemError string

text \<open>
  \<^verbatim>\<open>resolvePath(relativePath, cwd?)\<close>; the first argument of the model is the value of
  \<^verbatim>\<open>process.cwd()\<close>, and \<open>baseDir\<close> is the source's local constant of that name,
  \<^verbatim>\<open>resolve(cwd ?? process.cwd())\<close>.
\<close>

definition baseDir :: "string \<Rightarrow> string option \<Rightarrow> string" where
  "baseDir procCwd cwd = pathResolve procCwd [case cwd of None \<Rightarrow> procCwd | Some d \<Rightarrow> d]"

definition resolvePath :: "string \<Rightarrow> string \<Rightarrow> string option \<Rightarrow> jsError + string" where
  "resolvePath procCwd relativePath cwd =
     (let resolved = pathResolve procCwd [baseDir procCwd cwd, relativePath]
      in if \<not> prefix (baseDir procCwd cwd @ ''/'') resolved \<and> resolved \<noteq> baseDir procCwd cwd
         then Inl (Error (''Path '' @ [DQ] @ relativePath @ [DQ]
                          @ '' resolves outside the working directory''))
         else Inr resolved)"

text \<open>The directory names of a path, from the root down.\<close>

definition segments :: "string \<Rightarrow> string list" where
  "segments p = filter (\<lambda>s. s \<noteq> []) (splitSlash p)"


text \<open>A segment that names a directory entry: not empty, not a dot segment, without slash.\<close>

definition plainSeg :: "string \<Rightarrow> bool" where
  "plainSeg s \<longleftrightarrow> s \<noteq> [] \<and> s \<noteq> ''.'' \<and> s \<noteq> ''..'' \<and> CHR ''/'' \<notin> set s"


section \<open>The registry client\<close>

text \<open>
  A cache entry as \<^verbatim>\<open>JSON.parse\<close> returns it from a cache file. The file is not
  validated: the timestamp is whatever number the file holds, \<open>NaN\<close> when it holds none.
\<close>

record 'a cacheEntry =
  data :: 'a
  timestamp :: jsNumber
  sha256 :: "string option"

record response =
  status :: nat
  statusText :: string
  body :: string

text \<open>\<^verbatim>\<open>response.ok\<close>: the status is in the range 200 to 299.\<close>

definition ok :: "response \<Rightarrow> bool" where
  "ok r \<longleftrightarrow> 200 \<le> status r \<and> status r \<le> 299"

text \<open>
  What a call reads: the environment variable \<^verbatim>\<open>AGENTHINTS_REGISTRY\<close>, the process's
  working directory, the temporary directory of the operating system, the files of a
  local registry, the answer of the network to a URL (a rejection or a response), the
  outcome of creating the directories of a cache file and writing it, and the clock at
  the expiry check and at the cache write. A write either succeeds (\<open>None\<close>) or rejects
  with an error; the flag of a rejected write tells whether it left the file unreadable.
\<close>

record env =
  LOCAL_REGISTRY :: "string option"
  processCwd :: string
  tmpdir :: string
  files :: "string \<rightharpoonup> string"
  net :: "string \<Rightarrow> jsError + response"
  diskWrite :: "string \<Rightarrow> (jsError \<times> bool) option"
  nowAtCheck :: jsNumber
  nowAtWrite :: jsNumber

text \<open>
  What a call changes: the cache files, by their paths (a missing file and a file that
  does not parse are \<open>None\<close>), and the list of the URLs requested from the network, the
  latest last.
\<close>

record 'a world =
  cache :: "string \<rightharpoonup> 'a cacheEntry"
  requests :: "string list"

text \<open>Truthiness of an optional string: \<^verbatim>\<open>undefined\<close> and the empty string are falsy.\<close>

definition truthy :: "string option \<Rightarrow> bool" where
  "truthy x = (case x of None \<Rightarrow> False | Some s \<Rightarrow> s \<noteq> [])"

definition REGISTRY_BASE_URL :: "env \<Rightarrow> string" where
  "REGISTRY_BASE_URL e =
     (if truthy (LOCAL_REGISTRY e) then the (LOCAL_REGISTRY e)
      else ''https://agenthints.tech/registry'')"

definition getCacheDir :: "env \<Rightarrow> string" where
  "getCacheDir e = pathJoin [tmpdir e, ''agenthints-cache'']"

definition getCachePath :: "env \<Rightarrow> string \<Rightarrow> string" where
  "getCachePath e key = pathJoin [getCacheDir e, key @ ''.json'']"

text \<open>\<^verbatim>\<open>readCache\<close>: every failure to read or to parse the file gives \<^verbatim>\<open>null\<close>.\<close>

definition readCache :: "env \<Rightarrow> 'a world \<Rightarrow> string \<Rightarrow> 'a cacheEntry option" where
  "readCache e w key = cache w (getCachePath e key)"

text \<open>
  \<^verbatim>\<open>writeCache\<close>: the \<^verbatim>\<open>sha256\<close> field is written only when the argument is truthy.
  The result holds the error of a rejected \<^verbatim>\<open>mkdir\<close> or \<^verbatim>\<open>writeFile\<close>, which the callers
  do not catch.
\<close>

definition writeCache ::
  "env \<Rightarrow> 'a world \<Rightarrow> string \<Rightarrow> 'a \<Rightarrow> string option \<Rightarrow> jsError option \<times> 'a world" where
  "writeCache e w key d sha =
     (let cachePath = getCachePath e key;
          entry = \<lparr>data = d, timestamp = nowAtWrite e,
                   sha256 = (if truthy sha then sha else None)\<rparr>
      in case diskWrite e cachePath of
           None \<Rightarrow> (None, w\<lparr>cache := (cache w)(cachePath \<mapsto> entry)\<rparr>)
         | Some (err, unreadable) \<Rightarrow>
             (Some err,
              if unreadable then w\<lparr>cache := (cache w)(cachePath := None)\<rparr> else w))"

text \<open>
  \<^verbatim>\<open>fetchHintMetadata\<close>; \<open>parse\<close> is \<^verbatim>\<open>JSON.parse\<close> read at the type of the metadata.
\<close>

definition fetchHintMetadata ::
  "(string \<Rightarrow> 'm option) \<Rightarrow> env \<Rightarrow> 'm world \<Rightarrow> string \<Rightarrow> (jsError + 'm) \<times> 'm world" where
  "fetchHintMetadata parse e w hintPath =
     (if truthy (LOCAL_REGISTRY e) then
        (case files e (pathResolve (processCwd e)
                 [the (LOCAL_REGISTRY e), ''hints/'' @ hintPath @ ''/meta.json'']) of
           None \<Rightarrow> (Inl (SystemError ''ENOENT''), w)
         | Some text \<Rightarrow>
             (case parse text of
                None \<Rightarrow> (Inl (SystemError ''SyntaxError''), w)
              | Some m \<Rightarrow> (Inr m, w)))
      else
        (let cacheKey = ''hints/'' @ hintPath @ ''/meta'';
             cached = readCache e w cacheKey
         in if (case cached of None \<Rightarrow> False
                | Some c \<Rightarrow> \<not> isExpired (nowAtCheck e) (timestamp c) HINT_TTL_MS)
            then (Inr (data (the cached)), w)
            else
              (let url = REGISTRY_BASE_URL e @ ''/hints/'' @ hintPath @ ''/meta.json'';
                   w1 = w\<lparr>requests := requests w @ [url]\<rparr>
               in case net e url of
                    Inl err \<Rightarrow> (Inl err, w1)
                  | Inr resp \<Rightarrow>
                      if \<not> ok resp then
                        (if status resp = 404 then
                           (Inl (Error (''Hint '' @ [DQ] @ hintPath @ [DQ]
                              @ '' not found in registry. Run '' @ [DQ] @ ''agenthints list''
                              @ [DQ] @ '' to see available hints.'')),
                            w1)
                         else
                           (Inl (Error (''Failed to fetch hint metadata: '' @ statusText resp)),
                            w1))
                      else
                        (case parse (body resp) of
                           None \<Rightarrow> (Inl (SystemError ''SyntaxError''), w1)
                         | Some m \<Rightarrow>
                             (case writeCache e w1 cacheKey m None of
                                (Some err, w2) \<Rightarrow> (Inl err, w2)
                              | (None, w2) \<Rightarrow> (Inr m, w2))))))"

definition fetchHintContent ::
  "env \<Rightarrow> string world \<Rightarrow> string \<Rightarrow> string \<Rightarrow> string option
     \<Rightarrow> (jsError + string) \<times> string world" where
  "fetchHintContent e w hintPath hintFile expectedSha256 =
     (let filePath = replaceStr hintFile ''./'' []
      in if truthy (LOCAL_REGISTRY e) then
           (case files e (pathResolve (processCwd e)
                    [the (LOCAL_REGISTRY e), ''hints/'' @ hintPath @ ''/'' @ filePath]) of
              None \<Rightarrow> (Inl (SystemError ''ENOENT''), w)
            | Some text \<Rightarrow> (Inr text, w))
         else
           (let cacheKey = ''hints/'' @ hintPath @ ''/content'';
                cached = readCache e w cacheKey
            in if (case cached of None \<Rightarrow> False
                   | Some c \<Rightarrow>
                       \<not> isExpired (nowAtCheck e) (timestamp c) HINT_TTL_MS
                       \<and> (\<not> truthy expectedSha256 \<or> sha256 c = expectedSha256))
               then (Inr (data (the cached)), w)
               else
                 (let url = REGISTRY_BASE_URL e @ ''/hints/'' @ hintPath @ ''/'' @ filePath;
                      w1 = w\<lparr>requests := requests w @ [url]\<rparr>
                  in case net e url of
                       Inl err \<Rightarrow> (Inl err, w1)
                     | Inr resp \<Rightarrow>
                         if \<not> ok resp then
                           (Inl (Error (''Failed to fetch hint content: '' @ statusText resp)),
                            w1)
                         else
                           (case writeCache e w1 cacheKey (body resp) expectedSha256 of
                              (Some err, w2) \<Rightarrow> (Inl err, w2)
                            | (None, w2) \<Rightarrow> (Inr (body resp), w2)))))"


section \<open>Inputs of the repository's tests, used in the examples\<close>

definition mockAgent :: agentConfig where
  "mockAgent = \<lparr> name = ''Test Agent'', description = ''A test agent'',
       path = ''.test/rules/{hint}.md'', header = None, appendMode = False,
       transform = None \<rparr>"

definition mockAppendAgent :: agentConfig where
  "mockAppendAgent = \<lparr> name = ''Test Append Agent'',
       description = ''A test agent with append mode'',
       path = ''.test/RULES.md'', header = None, appendMode = True,
       transform = None \<rparr>"


text \<open>The tests' append-mode agent with a static header.\<close>

definition agentWithBoth :: agentConfig where
  "agentWithBoth = mockAppendAgent \<lparr> header := Some (Fixed (''---'' @ [NL] @ ''type: hint''
       @ [NL] @ ''---'')) \<rparr>"

text \<open>The tests' file with newlines in excess around the section.\<close>

definition rulesFileMore :: string where
  "rulesFileMore = ''# Rules'' @ [NL, NL, NL] @ wrapInSection ''OLD'' ''x''
       @ [NL, NL, NL, NL] @ ''More.'' @ [NL]"

text \<open>Scenario 2 of the specification: a file with a heading and one section.\<close>

definition rulesFileOld :: string where
  "rulesFileOld = ''# Rules'' @ [NL, NL] @ wrapInSection ''OLD'' ''x''"

definition sectionNew :: string where
  "sectionNew = wrapInSection ''NEW'' ''x''"

text \<open>The tests' file in which only the start marker exists.\<close>

definition unterminatedFile :: string where
  "unterminatedFile = sectionStart ''x'' @ [NL] @ ''# Incomplete''"


text \<open>A section whose content quotes the end marker of its own slug.\<close>

definition quotingSection :: string where
  "quotingSection = wrapInSection (''see '' @ sectionEnd ''x'' @ '' above'') ''x''"

text \<open>A section whose content holds the replacement pattern \<^verbatim>\<open>$$\<close>.\<close>

definition dollarSection :: string where
  "dollarSection = wrapInSection ''Run make with $$HOME'' ''x''"

text \<open>A file with two sections for the same slug.\<close>

definition twoSections :: string where
  "twoSections = wrapInSection ''a'' ''x'' @ [NL] @ wrapInSection ''b'' ''x''"


text \<open>
  A remote registry that answers every request with one response, an hour after the
  cached content was written; the cache of the tests, holding content under an old hash.
\<close>

definition okResponse :: response where
  "okResponse = \<lparr> status = 200, statusText = ''OK'', body = ''new content'' \<rparr>"

definition notFoundResponse :: response where
  "notFoundResponse = \<lparr> status = 404, statusText = ''Not Found'', body = [] \<rparr>"

definition serverErrorResponse :: response where
  "serverErrorResponse = \<lparr> status = 500, statusText = ''Internal Server Error'', body = [] \<rparr>"

definition remoteEnv :: "response \<Rightarrow> env" where
  "remoteEnv r = \<lparr> LOCAL_REGISTRY = None, processCwd = ''/'', tmpdir = ''/tmp'',
       files = Map.empty, net = (\<lambda>url. Inr r), diskWrite = (\<lambda>p. None),
       nowAtCheck = ofInt (1700000000000 + 60 * 60 * 1000),
       nowAtWrite = ofInt (1700000000000 + 60 * 60 * 1000) \<rparr>"

text \<open>The same registry with a cache directory that cannot be written.\<close>

definition readOnlyEnv :: "response \<Rightarrow> env" where
  "readOnlyEnv r = (remoteEnv r)\<lparr> diskWrite := (\<lambda>p. Some (SystemError ''EACCES'', False)) \<rparr>"

text \<open>The same registry, 25 hours after the cached content was written.\<close>

definition lateEnv :: "response \<Rightarrow> env" where
  "lateEnv r = (remoteEnv r)\<lparr> nowAtCheck := ofInt (1700000000000 + 25 * 60 * 60 * 1000),
       nowAtWrite := ofInt (1700000000000 + 25 * 60 * 60 * 1000) \<rparr>"

definition cachedContent :: "string cacheEntry" where
  "cachedContent = \<lparr> data = ''old content'', timestamp = ofInt 1700000000000,
       sha256 = Some ''old-sha'' \<rparr>"

definition contentWorld :: "string world" where
  "contentWorld = \<lparr> cache = [''/tmp/agenthints-cache/hints/prisma/content.json'' \<mapsto> cachedContent],
       requests = [] \<rparr>"

definition emptyWorld :: "'a world" where
  "emptyWorld = \<lparr> cache = Map.empty, requests = [] \<rparr>"


section \<open>Facts about numbers\<close>

lemma bitLength_le: "n < 2 ^ k \<Longrightarrow> bitLength n \<le> k"
proof (induction k arbitrary: n)
  case 0
  then show ?case by (simp add: bitLength.simps)
next
  case (Suc k)
  show ?case
  proof (cases "n = 0")
    case True
    then show ?thesis by (simp add: bitLength.simps)
  next
    case False
    from Suc.prems have "n div 2 < 2 ^ k" by simp
    from Suc.IH [OF this] False show ?thesis by (subst bitLength.simps) simp
  qed
qed

lemma roundNat_dvd: "2 ^ (bitLength n - 53) dvd n \<Longrightarrow> roundNat n = n"
  by (auto simp: roundNat_def Let_def mod_eq_0_iff_dvd)

lemma roundNat_scaled:
  assumes "m \<le> 2 ^ 53"
  shows "roundNat (m * 2 ^ s) = m * 2 ^ s"
proof (rule roundNat_dvd)
  let ?n = "m * 2 ^ s"
  show "2 ^ (bitLength ?n - 53) dvd ?n"
  proof (cases "m < 2 ^ 53")
    case True
    then have "?n < 2 ^ 53 * 2 ^ s" by simp
    then have "?n < 2 ^ (53 + s)" by (simp add: power_add)
    then have "bitLength ?n \<le> 53 + s" by (rule bitLength_le)
    then have "(2::nat) ^ (bitLength ?n - 53) dvd 2 ^ s" by (intro le_imp_power_dvd) simp
    then show ?thesis by (rule dvd_mult)
  next
    case False
    with assms have m: "m = 2 ^ 53" by simp
    then have n: "?n = 2 ^ (53 + s)" by (simp add: power_add)
    have "?n < 2 ^ (54 + s)" unfolding n by simp
    then have "bitLength ?n \<le> 54 + s" by (rule bitLength_le)
    then have "(2::nat) ^ (bitLength ?n - 53) dvd 2 ^ (53 + s)" by (intro le_imp_power_dvd) simp
    then show ?thesis by (simp only: n)
  qed
qed

lemma jsSub_ofInt:
  assumes "\<bar>a - b\<bar> \<le> 2 ^ 53"
  shows "jsSub (ofInt a) (ofInt b) = ofInt (a - b)"
proof -
  let ?d = "a - b"
  have eq: "a * 2 ^ 1074 - b * 2 ^ 1074 = ?d * 2 ^ 1074" by (simp add: algebra_simps)
  have abs: "nat \<bar>?d * 2 ^ 1074\<bar> = nat \<bar>?d\<bar> * 2 ^ 1074"
    by (simp add: abs_mult nat_mult_distrib)
  from assms have le: "nat \<bar>?d\<bar> \<le> 2 ^ 53" by simp
  have r: "roundNat (nat \<bar>?d\<bar> * 2 ^ 1074) = nat \<bar>?d\<bar> * 2 ^ 1074"
    using le by (rule roundNat_scaled)
  have "nat \<bar>?d\<bar> * 2 ^ 1074 \<le> 2 ^ 53 * (2::nat) ^ 1074" using le by simp
  also have "\<dots> < 2 ^ 2098" by (simp add: power_add [symmetric])
  finally have small: "\<not> nat \<bar>?d\<bar> * 2 ^ 1074 \<ge> (2::nat) ^ 2098" by simp
  have sign: "(?d * 2 ^ 1074 < 0) = (?d < 0)" by (simp add: mult_less_0_iff)
  show ?thesis
    unfolding ofInt_def jsSub.simps eq roundDouble_def Let_def abs r sign
    using small by (auto simp: nat_mult_distrib)
qed

lemma jsGe_ofInt: "jsGe (ofInt a) (ofInt b) = (a \<ge> b)"
  by (simp add: ofInt_def)

lemma isExpired_ofInt:
  "\<bar>now - ts\<bar> \<le> 2 ^ 53 \<Longrightarrow> isExpired (ofInt now) (ofInt ts) (ofInt t) = (now - ts \<ge> t)"
  by (simp add: isExpired_def jsSub_ofInt jsGe_ofInt)



lemma bitLength_double: "0 < n \<Longrightarrow> bitLength (2 * n) = Suc (bitLength n)"
  by (subst bitLength.simps) simp

lemma bitLength_scaled: "0 < n \<Longrightarrow> bitLength (n * 2 ^ s) = bitLength n + s"
proof (induction s)
  case 0
  then show ?case by simp
next
  case (Suc s)
  have e: "n * 2 ^ Suc s = 2 * (n * 2 ^ s)" by simp
  have "0 < n * 2 ^ s" using Suc.prems by simp
  then have "bitLength (2 * (n * 2 ^ s)) = Suc (bitLength (n * 2 ^ s))"
    by (rule bitLength_double)
  with Suc show ?case by (simp only: e)
qed

lemma roundNat_unfold:
  assumes "\<not> bitLength n \<le> 53" and "bitLength n - 53 = t"
  shows "roundNat n =
           (if n mod 2 ^ t > 2 ^ (t - 1) \<or> (n mod 2 ^ t = 2 ^ (t - 1) \<and> odd (n div 2 ^ t))
            then n div 2 ^ t + 1 else n div 2 ^ t) * 2 ^ t"
  using assms by (simp add: roundNat_def Let_def)

lemma roundNat_scale: "roundNat (n * 2 ^ s) = roundNat n * 2 ^ s"
proof (cases "n = 0")
  case True
  then show ?thesis by (simp add: roundNat_def bitLength.simps)
next
  case False
  then have pos: "0 < n" by simp
  let ?k = "bitLength n"
  have k: "bitLength (n * 2 ^ s) = ?k + s" using pos by (rule bitLength_scaled)
  show ?thesis
  proof (cases "?k \<le> 53")
    case True
    then have "roundNat n = n" by (simp add: roundNat_def)
    moreover have "roundNat (n * 2 ^ s) = n * 2 ^ s"
    proof (rule roundNat_dvd)
      have "(2::nat) ^ (?k + s - 53) dvd 2 ^ s" using True by (intro le_imp_power_dvd) simp
      then show "2 ^ (bitLength (n * 2 ^ s) - 53) dvd n * 2 ^ s"
        unfolding k by (rule dvd_mult)
    qed
    ultimately show ?thesis by simp
  next
    case False
    define s0 where "s0 = ?k - 53"
    define q where "q = n div 2 ^ s0"
    define r where "r = n mod 2 ^ s0"
    define h :: nat where "h = 2 ^ (s0 - 1)"
    from False have s0: "0 < s0" by (simp add: s0_def)
    have big: "\<not> bitLength (n * 2 ^ s) \<le> 53" and sh: "bitLength (n * 2 ^ s) - 53 = s0 + s"
      using False by (simp_all add: k s0_def)
    have p: "(2::nat) ^ (s0 + s) = 2 ^ s0 * 2 ^ s" by (simp add: power_add)
    have d: "n * 2 ^ s div 2 ^ (s0 + s) = q" unfolding p q_def by simp
    have m: "n * 2 ^ s mod 2 ^ (s0 + s) = r * 2 ^ s" unfolding p r_def by simp
    have hh: "(2::nat) ^ (s0 + s - 1) = h * 2 ^ s"
      using s0 by (simp add: h_def power_add [symmetric])
    have c1: "(r * 2 ^ s > h * 2 ^ s) = (r > h)" by simp
    have c2: "(r * 2 ^ s = h * 2 ^ s) = (r = h)" by simp
    have "roundNat (n * 2 ^ s) = (if r > h \<or> (r = h \<and> odd q) then q + 1 else q) * 2 ^ (s0 + s)"
      by (simp only: roundNat_unfold [OF big sh] d m hh c1 c2)
    moreover have "roundNat n = (if r > h \<or> (r = h \<and> odd q) then q + 1 else q) * 2 ^ s0"
      by (simp only: roundNat_unfold [OF False s0_def [symmetric]] q_def r_def h_def)
    ultimately show ?thesis by (simp only: p mult.assoc)
  qed
qed

lemma jsSub_ofInt_rounded:
  assumes "roundNat (nat \<bar>a - b\<bar>) < 2 ^ 1024"
  shows "jsSub (ofInt a) (ofInt b) = ofInt (roundInt (a - b))"
proof -
  let ?d = "a - b"
  have eq: "a * 2 ^ 1074 - b * 2 ^ 1074 = ?d * 2 ^ 1074" by (simp add: algebra_simps)
  have abs: "nat \<bar>?d * 2 ^ 1074\<bar> = nat \<bar>?d\<bar> * 2 ^ 1074"
    by (simp add: abs_mult nat_mult_distrib)
  have r: "roundNat (nat \<bar>?d\<bar> * 2 ^ 1074) = roundNat (nat \<bar>?d\<bar>) * 2 ^ 1074"
    by (rule roundNat_scale)
  have "roundNat (nat \<bar>?d\<bar>) * 2 ^ 1074 < 2 ^ 1024 * (2::nat) ^ 1074" using assms by simp
  also have "\<dots> = 2 ^ 2098" by (simp add: power_add [symmetric])
  finally have small: "\<not> roundNat (nat \<bar>?d\<bar>) * 2 ^ 1074 \<ge> (2::nat) ^ 2098" by simp
  have sign: "(?d * 2 ^ 1074 < 0) = (?d < 0)" by (simp add: mult_less_0_iff)
  show ?thesis
    unfolding ofInt_def jsSub.simps eq roundDouble_def Let_def abs r sign roundInt_def
    using small by (auto simp: nat_mult_distrib)
qed


section \<open>Facts about searching and replacing\<close>

lemma indexOf_SomeD:
  "indexOf s pat = Some i \<Longrightarrow>
     i \<le> length s \<and> prefix pat (drop i s) \<and> (\<forall>j<i. \<not> prefix pat (drop j s))"
proof (induction s arbitrary: i)
  case Nil
  then show ?case by (auto split: if_splits)
next
  case (Cons c cs)
  show ?case
  proof (cases "prefix pat (c # cs)")
    case True
    with Cons.prems show ?thesis by simp
  next
    case False
    with Cons.prems obtain k where k: "indexOf cs pat = Some k" "i = Suc k" by auto
    from Cons.IH [OF k(1)] False k(2) show ?thesis
      by (auto simp: less_Suc_eq_0_disj)
  qed
qed

lemma indexOf_NoneD:
  "indexOf s pat = None \<Longrightarrow> j \<le> length s \<Longrightarrow> \<not> prefix pat (drop j s)"
proof (induction s arbitrary: j)
  case Nil
  then show ?case by (auto split: if_splits)
next
  case (Cons c cs)
  then show ?case by (cases j) (auto split: if_splits)
qed

lemma indexOf_SomeI:
  assumes "prefix pat (drop i s)" and "i \<le> length s"
    and "\<And>j. j < i \<Longrightarrow> \<not> prefix pat (drop j s)"
  shows "indexOf s pat = Some i"
proof (cases "indexOf s pat")
  case None
  with assms(1,2) show ?thesis using indexOf_NoneD by blast
next
  case (Some k)
  from indexOf_SomeD [OF Some] assms have "\<not> k < i" "\<not> i < k" by blast+
  with Some show ?thesis by simp
qed

lemma prefix_iff_take:
  "prefix pat xs \<longleftrightarrow> length pat \<le> length xs \<and> take (length pat) xs = pat"
proof
  assume "prefix pat xs"
  then show "length pat \<le> length xs \<and> take (length pat) xs = pat"
    by (auto simp: prefix_def)
next
  assume h: "length pat \<le> length xs \<and> take (length pat) xs = pat"
  have "xs = take (length pat) xs @ drop (length pat) xs" by simp
  with h have "xs = pat @ drop (length pat) xs" by simp
  then show "prefix pat xs" unfolding prefix_def by blast
qed

lemma prefix_drop_append_local:
  assumes "j + length pat \<le> length u"
  shows "prefix pat (drop j (u @ v)) = prefix pat (drop j u)"
  using assms by (auto simp: prefix_iff_take)

lemma length_sectionStart: "length (sectionStart slug) = length slug + 26"
  by (simp add: sectionStart_def)

lemma length_sectionEnd: "length (sectionEnd slug) = length slug + 24"
  by (simp add: sectionEnd_def)

lemma marker_gap:
  assumes "prefix (sectionStart slug) (drop i F)"
    and "prefix (sectionEnd slug) (drop (Suc i) F)"
  shows False
proof -
  from assms(1) obtain r where r: "drop i F = sectionStart slug @ r"
    by (auto simp: prefix_def)
  have "drop (Suc i) F = tl (drop i F)"
    by (simp add: drop_Suc tl_drop)
  with r have "drop (Suc i) F = tl (sectionStart slug @ r)" by simp
  then have "hd (drop (Suc i) F) = CHR ''!''"
    by (simp add: sectionStart_def)
  moreover from assms(2) have "hd (drop (Suc i) F) = CHR ''<''"
    by (auto simp: prefix_def sectionEnd_def)
  ultimately show False by simp
qed

lemma extractSection_SomeD:
  assumes "extractSection F slug = Some sec"
  obtains pre post e where
    "F = pre @ sec @ post"
    "indexOf F (sectionStart slug) = Some (length pre)"
    "indexOf F (sectionEnd slug) = Some e"
    "length pre < e"
    "length pre + length sec = e + length (sectionEnd slug)"
    "prefix (sectionStart slug) sec"
proof -
  from assms obtain i e where
    i: "indexOf F (sectionStart slug) = Some i" and
    e: "indexOf F (sectionEnd slug) = Some e" and
    lt: "i < e" and
    sec: "sec = slice F i (e + length (sectionEnd slug))"
    by (auto simp: extractSection_def split: option.splits if_splits)
  let ?m = "e + length (sectionEnd slug) - i"
  from indexOf_SomeD [OF i] have pi: "prefix (sectionStart slug) (drop i F)" and iF: "i \<le> length F"
    by blast+
  from indexOf_SomeD [OF e] have pe: "prefix (sectionEnd slug) (drop e F)" and eF: "e \<le> length F"
    by blast+
  from pe eF have bound: "e + length (sectionEnd slug) \<le> length F"
    by (auto simp: prefix_iff_take)
  have "e \<noteq> Suc i" using marker_gap pi pe by blast
  with lt have gap: "i + 2 \<le> e" by simp
  have lensec: "length sec = ?m"
    using bound lt by (simp add: sec slice_def)
  have F: "F = take i F @ sec @ drop (e + length (sectionEnd slug)) F"
  proof -
    have "drop i F = take ?m (drop i F) @ drop ?m (drop i F)"
      by (rule append_take_drop_id [symmetric])
    moreover have "drop ?m (drop i F) = drop (e + length (sectionEnd slug)) F"
      using lt by simp
    ultimately have "drop i F = sec @ drop (e + length (sectionEnd slug)) F"
      by (simp add: sec slice_def)
    then show ?thesis by (metis append_take_drop_id)
  qed
  have lp: "length (take i F) = i" using iF by simp
  have ps: "prefix (sectionStart slug) sec"
  proof -
    have "length (sectionStart slug) \<le> ?m"
      using gap by (simp add: length_sectionStart length_sectionEnd)
    with pi show ?thesis
      by (auto simp: prefix_iff_take sec slice_def min_def)
  qed
  show ?thesis
    by (rule that [of "take i F" "drop (e + length (sectionEnd slug)) F" e])
       (use F lp i e lt lensec ps in auto)
qed

lemma indexOf_section:
  assumes "F = pre @ sec @ post"
    and "indexOf F (sectionStart slug) = Some (length pre)"
    and "prefix (sectionStart slug) sec"
  shows "indexOf F sec = Some (length pre)"
proof (rule indexOf_SomeI)
  show "prefix sec (drop (length pre) F)" using assms(1) by simp
  show "length pre \<le> length F" using assms(1) by simp
  fix j assume j: "j < length pre"
  show "\<not> prefix sec (drop j F)"
  proof
    assume "prefix sec (drop j F)"
    with assms(3) have "prefix (sectionStart slug) (drop j F)"
      by (rule prefix_order.trans)
    with indexOf_SomeD [OF assms(2)] j show False by blast
  qed
qed

lemma replaceStr_section:
  assumes "F = pre @ sec @ post" and "indexOf F sec = Some (length pre)"
  shows "replaceStr F sec rep = pre @ getSubstitution sec pre post rep @ post"
  using assms by (simp add: replaceStr_def)

lemma getSubstitution_literal:
  "\<not> hasSubstPattern rep \<Longrightarrow> getSubstitution m b a rep = rep"
  by (induction m b a rep rule: getSubstitution.induct) auto


lemma extractSection_embed:
  assumes ns: "\<And>j. j < length pre \<Longrightarrow>
                 \<not> prefix (sectionStart slug) (drop j (pre @ sectionStart slug))"
    and ne: "\<And>j. j < length pre \<Longrightarrow>
                 \<not> prefix (sectionEnd slug) (drop j (pre @ sectionStart slug))"
    and S1: "prefix (sectionStart slug) S"
    and S2: "indexOf S (sectionEnd slug) = Some (length S - length (sectionEnd slug))"
  shows "extractSection (pre @ S @ post) slug = Some S"
proof -
  let ?st = "sectionStart slug" and ?en = "sectionEnd slug"
  let ?R = "pre @ S @ post"
  let ?k = "length S - length ?en"
  from S1 obtain s' where S: "S = ?st @ s'" by (auto simp: prefix_def)
  have R: "?R = (pre @ ?st) @ (s' @ post)" by (simp add: S)
  have lenS: "length ?en + 2 \<le> length S"
    by (simp add: S length_sectionStart length_sectionEnd)
  from indexOf_SomeD [OF S2] have
    occ: "prefix ?en (drop ?k S)" and first: "\<And>j. j < ?k \<Longrightarrow> \<not> prefix ?en (drop j S)"
    by blast+
  have iS: "indexOf ?R ?st = Some (length pre)"
  proof (rule indexOf_SomeI)
    show "prefix ?st (drop (length pre) ?R)" by (simp add: S)
    show "length pre \<le> length ?R" by simp
    fix j assume j: "j < length pre"
    then have "prefix ?st (drop j ?R) = prefix ?st (drop j (pre @ ?st))"
      unfolding R by (intro prefix_drop_append_local) simp
    with ns [OF j] show "\<not> prefix ?st (drop j ?R)" by simp
  qed
  have iE: "indexOf ?R ?en = Some (length pre + ?k)"
  proof (rule indexOf_SomeI)
    have "drop (length pre + ?k) ?R = drop ?k S @ post" by simp
    with occ show "prefix ?en (drop (length pre + ?k) ?R)" by simp
    show "length pre + ?k \<le> length ?R" by simp
    fix j assume j: "j < length pre + ?k"
    show "\<not> prefix ?en (drop j ?R)"
    proof (cases "j < length pre")
      case True
      then have "prefix ?en (drop j ?R) = prefix ?en (drop j (pre @ ?st))"
        unfolding R
        by (intro prefix_drop_append_local) (simp add: length_sectionStart length_sectionEnd)
      with ne [OF True] show ?thesis by simp
    next
      case False
      define j' where "j' = j - length pre"
      with False j have j': "j' < ?k" "j = length pre + j'" by simp_all
      have "drop j ?R = drop j' (S @ post)" by (simp add: j'(2))
      moreover have "prefix ?en (drop j' (S @ post)) = prefix ?en (drop j' S)"
        using j'(1) by (intro prefix_drop_append_local) simp
      ultimately show ?thesis using first [OF j'(1)] by simp
    qed
  qed
  have "slice ?R (length pre) (length pre + ?k + length ?en) = S"
    using lenS by (simp add: slice_def)
  with iS iE lenS show ?thesis
    by (simp add: extractSection_def)
qed


lemma upsertSection_found:
  assumes "extractSection F slug = Some sec"
  obtains pre post where
    "F = pre @ sec @ post"
    "indexOf F (sectionStart slug) = Some (length pre)"
    "indexOf F sec = Some (length pre)"
    "upsertSection F slug S = pre @ getSubstitution sec pre post S @ post"
proof -
  from extractSection_SomeD [OF assms] obtain pre post e where
    F: "F = pre @ sec @ post" and
    i: "indexOf F (sectionStart slug) = Some (length pre)" and
    ps: "prefix (sectionStart slug) sec"
    by blast
  have isec: "indexOf F sec = Some (length pre)"
    using F i ps by (rule indexOf_section)
  from ps have ne: "sec \<noteq> []" by (auto simp: sectionStart_def)
  have "upsertSection F slug S = replaceStr F sec S"
    using assms ne by (simp add: upsertSection_def)
  also have "\<dots> = pre @ getSubstitution sec pre post S @ post"
    using F isec by (rule replaceStr_section)
  finally show ?thesis using that F i isec by blast
qed

lemma roundtrip_replace:
  assumes ex: "extractSection F slug = Some sec"
    and lit: "\<not> hasSubstPattern S"
    and S1: "prefix (sectionStart slug) S"
    and S2: "indexOf S (sectionEnd slug) = Some (length S - length (sectionEnd slug))"
  shows "extractSection (upsertSection F slug S) slug = Some S"
proof -
  let ?st = "sectionStart slug" and ?en = "sectionEnd slug"
  from extractSection_SomeD [OF ex] obtain pre post e where
    F: "F = pre @ sec @ post" and
    i: "indexOf F ?st = Some (length pre)" and
    e: "indexOf F ?en = Some e" and
    lt: "length pre < e" and
    ps: "prefix ?st sec"
    by blast
  from ps obtain sec' where sec: "sec = ?st @ sec'" by (auto simp: prefix_def)
  have F': "F = (pre @ ?st) @ (sec' @ post)" by (simp add: F sec)
  have ns: "\<not> prefix ?st (drop j (pre @ ?st))" if "j < length pre" for j
  proof -
    have "prefix ?st (drop j F) = prefix ?st (drop j (pre @ ?st))"
      by (subst F', rule prefix_drop_append_local) (use that in simp)
    with indexOf_SomeD [OF i] that show ?thesis by blast
  qed
  have ne: "\<not> prefix ?en (drop j (pre @ ?st))" if "j < length pre" for j
  proof -
    have "prefix ?en (drop j F) = prefix ?en (drop j (pre @ ?st))"
      by (subst F', rule prefix_drop_append_local)
         (use that in \<open>simp add: length_sectionStart length_sectionEnd\<close>)
    moreover from that lt have "j < e" by simp
    ultimately show ?thesis using indexOf_SomeD [OF e] by blast
  qed
  obtain pre' post' where up: "upsertSection F slug S = pre' @ getSubstitution sec pre' post' S @ post'"
    and F2: "F = pre' @ sec @ post'" and i2: "indexOf F ?st = Some (length pre')"
    using upsertSection_found [OF ex] by metis
  from i i2 have "length pre' = length pre" by simp
  with F F2 have "pre' = pre" "post' = post" by auto
  with up lit have "upsertSection F slug S = pre @ S @ post"
    by (simp add: getSubstitution_literal)
  then show ?thesis using extractSection_embed [OF ns ne S1 S2] by simp
qed

lemma trim_factor: "\<exists>a b. F = a @ trim F @ b"
proof -
  let ?d = "dropWhile isWhiteSpace F"
  have "rev (rev ?d) = rev (takeWhile isWhiteSpace (rev ?d) @ dropWhile isWhiteSpace (rev ?d))"
    by (simp only: takeWhile_dropWhile_id)
  then have "?d = rev (dropWhile isWhiteSpace (rev ?d)) @ rev (takeWhile isWhiteSpace (rev ?d))"
    by (simp only: rev_rev_ident rev_append)
  then have "?d = trim F @ rev (takeWhile isWhiteSpace (rev ?d))"
    by (simp only: trim_def)
  moreover have "F = takeWhile isWhiteSpace F @ ?d" by simp
  ultimately have "F = takeWhile isWhiteSpace F @ trim F @ rev (takeWhile isWhiteSpace (rev ?d))"
    by simp
  then show ?thesis by blast
qed

lemma no_occurrence_factor:
  assumes "indexOf F pat = None" and "F = a @ T @ b"
  shows "\<not> prefix pat (drop j T)"
proof
  assume p: "prefix pat (drop j T)"
  show False
  proof (cases "j \<le> length T")
    case True
    have "drop (length a + j) F = drop j T @ b" using True by (simp add: assms(2))
    with p have "prefix pat (drop (length a + j) F)" by simp
    moreover have "length a + j \<le> length F" using True by (simp add: assms(2))
    ultimately show False using indexOf_NoneD [OF assms(1)] by blast
  next
    case False
    with p have "pat = []" by simp
    then have "prefix pat (drop 0 F)" by simp
    then show False using indexOf_NoneD [OF assms(1), of 0] by simp
  qed
qed

lemma prefix_nth:
  assumes "prefix pat (drop j Z)" and "m < length pat"
  shows "Z ! (j + m) = pat ! m"
proof -
  from assms(1) obtain r where r: "drop j Z = pat @ r" by (auto simp: prefix_def)
  from assms(2) r have "j \<le> length Z" by (cases "j \<le> length Z") auto
  then have "Z ! (j + m) = (drop j Z) ! m" by simp
  with r assms(2) show ?thesis by (simp add: nth_append)
qed

lemma no_occurrence_across_blank:
  assumes nl: "NL \<notin> set pat"
    and inT: "\<And>j. \<not> prefix pat (drop j T)"
    and j: "j < length T + 2"
  shows "\<not> prefix pat (drop j ((T @ [NL, NL]) @ X))"
proof
  let ?Z = "(T @ [NL, NL]) @ X"
  assume p: "prefix pat (drop j ?Z)"
  show False
  proof (cases "j + length pat \<le> length T")
    case True
    have "?Z = T @ ([NL, NL] @ X)" by simp
    then have "prefix pat (drop j ?Z) = prefix pat (drop j T)"
      using True prefix_drop_append_local by metis
    with p inT show False by simp
  next
    case False
    have "pat \<noteq> []" using inT [of 0] by auto
    define m where "m = (if j \<le> length T then length T - j else 0)"
    have m: "m < length pat" using False \<open>pat \<noteq> []\<close> by (auto simp: m_def)
    have pos: "j + m = length T \<or> j + m = Suc (length T)"
      using j by (auto simp: m_def)
    then have "?Z ! (j + m) = NL" by (auto simp: nth_append)
    with prefix_nth [OF p m] have "pat ! m = NL" by simp
    with m nl show False by (metis nth_mem)
  qed
qed

lemma roundtrip_append:
  assumes nS: "indexOf F (sectionStart slug) = None"
    and nE: "indexOf F (sectionEnd slug) = None"
    and slug: "NL \<notin> set slug"
    and S1: "prefix (sectionStart slug) S"
    and S2: "indexOf S (sectionEnd slug) = Some (length S - length (sectionEnd slug))"
  shows "extractSection (upsertSection F slug S) slug = Some S"
proof -
  let ?st = "sectionStart slug" and ?en = "sectionEnd slug"
  let ?T = "trim F"
  have none: "extractSection F slug = None" using nS by (simp add: extractSection_def)
  obtain a b where F: "F = a @ ?T @ b" using trim_factor by blast
  show ?thesis
  proof (cases "?T = []")
    case True
    then have "upsertSection F slug S = [] @ S @ []" using none by (simp add: upsertSection_def)
    moreover have "extractSection ([] @ S @ []) slug = Some S"
      by (rule extractSection_embed [OF _ _ S1 S2]) simp_all
    ultimately show ?thesis by simp
  next
    case False
    then have up: "upsertSection F slug S = (?T @ [NL, NL]) @ S @ []"
      using none by (simp add: upsertSection_def)
    have nlS: "NL \<notin> set ?st" and nlE: "NL \<notin> set ?en"
      using slug by (auto simp: sectionStart_def sectionEnd_def)
    have "extractSection ((?T @ [NL, NL]) @ S @ []) slug = Some S"
    proof (rule extractSection_embed [OF _ _ S1 S2])
      fix j assume "j < length (?T @ [NL, NL])"
      then have j: "j < length ?T + 2" by simp
      show "\<not> prefix ?st (drop j ((?T @ [NL, NL]) @ ?st))"
        by (rule no_occurrence_across_blank [OF nlS no_occurrence_factor [OF nS F] j])
      show "\<not> prefix ?en (drop j ((?T @ [NL, NL]) @ ?st))"
        by (rule no_occurrence_across_blank [OF nlE no_occurrence_factor [OF nE F] j])
    qed
    with up show ?thesis by simp
  qed
qed


text \<open>Unfolding the transformer on concrete inputs.\<close>

lemmas ev = wrapInSection_def sectionStart_def sectionEnd_def rulesFileOld_def sectionNew_def
  unterminatedFile_def extractSection_def upsertSection_def slice_def replaceStr_def trim_def isWhiteSpace_def


lemma length_collapseNewlines: "length (collapseNewlines s) \<le> length s"
proof (induction s rule: collapseNewlines.induct)
  case 1
  then show ?case by simp
next
  case (2 c cs)
  show ?case
  proof (cases "c = NL \<and> prefix [NL, NL] cs")
    case True
    then obtain r where cs: "cs = NL # NL # r" by (auto simp: prefix_def)
    have "length (dropWhile (\<lambda>x. x = NL) cs) \<le> length r"
      by (simp add: cs length_dropWhile_le)
    with 2(1) True show ?thesis by (simp add: cs)
  next
    case False
    with 2(2) show ?thesis by auto
  qed
qed

lemma length_trim: "length (trim s) \<le> length s"
proof -
  have "length (trim s) \<le> length (dropWhile isWhiteSpace s)"
    unfolding trim_def using length_dropWhile_le [of isWhiteSpace "rev (dropWhile isWhiteSpace s)"]
    by simp
  also have "\<dots> \<le> length s" by (rule length_dropWhile_le)
  finally show ?thesis .
qed

lemma removeSection_found:
  assumes "extractSection F slug = Some sec"
  obtains pre post where
    "F = pre @ sec @ post"
    "indexOf F (sectionStart slug) = Some (length pre)"
    "sec \<noteq> []"
    "removeSection F slug = trim (collapseNewlines (pre @ post))"
proof -
  from extractSection_SomeD [OF assms] obtain pre post e where
    F: "F = pre @ sec @ post" and
    i: "indexOf F (sectionStart slug) = Some (length pre)" and
    ps: "prefix (sectionStart slug) sec"
    by blast
  have isec: "indexOf F sec = Some (length pre)"
    using F i ps by (rule indexOf_section)
  from ps have ne: "sec \<noteq> []" by (auto simp: sectionStart_def)
  have "replaceStr F sec [] = pre @ getSubstitution sec pre post [] @ post"
    using F isec by (rule replaceStr_section)
  then have "removeSection F slug = trim (collapseNewlines (pre @ post))"
    using assms ne by (simp add: removeSection_def)
  then show ?thesis using that F i ne by blast
qed

lemma removeSection_shrinks:
  assumes "extractSection F slug = Some sec"
  shows "length (removeSection F slug) < length F"
proof -
  from removeSection_found [OF assms] obtain pre post where
    F: "F = pre @ sec @ post" and ne: "sec \<noteq> []" and
    r: "removeSection F slug = trim (collapseNewlines (pre @ post))"
    by blast
  have "length (removeSection F slug) \<le> length (collapseNewlines (pre @ post))"
    unfolding r by (rule length_trim)
  also have "\<dots> \<le> length (pre @ post)" by (rule length_collapseNewlines)
  also have "\<dots> < length F" using ne by (simp add: F)
  finally show ?thesis .
qed


lemma spec_collapseRuns_Nil: "spec_collapseRuns [] = []"
  by (simp add: spec_collapseRuns.simps)

lemma spec_collapseRuns_other: "c \<noteq> NL \<Longrightarrow> spec_collapseRuns (c # cs) = c # spec_collapseRuns cs"
  by (simp add: spec_collapseRuns.simps [of "c # cs"])

lemma spec_collapseRuns_short:
  assumes "\<not> prefix [NL, NL] cs"
  shows "spec_collapseRuns (NL # cs) = NL # spec_collapseRuns cs"
proof -
  consider "cs = []" | x xs where "cs = x # xs" "x \<noteq> NL" | "cs = [NL]"
    | y ys where "cs = NL # y # ys" "y \<noteq> NL"
    using assms by (cases cs; cases "tl cs") auto
  then show ?thesis
  proof cases
    case 1
    then show ?thesis
      by (simp add: spec_collapseRuns.simps [of "[NL]"] spec_collapseRuns_Nil)
  next
    case 2
    then show ?thesis
      by (simp add: spec_collapseRuns.simps [of "NL # x # xs"] spec_collapseRuns_other)
  next
    case 3
    then show ?thesis
      by (simp add: spec_collapseRuns.simps [of "[NL, NL]"] spec_collapseRuns.simps [of "[NL]"])
  next
    case 4
    then show ?thesis
      by (simp add: spec_collapseRuns.simps [of "NL # NL # y # ys"]
            spec_collapseRuns.simps [of "NL # y # ys"])
  qed
qed

lemma spec_collapseRuns_long:
  "spec_collapseRuns (NL # NL # NL # r) =
     NL # NL # (case dropWhile (\<lambda>x. x = NL) r of [] \<Rightarrow> []
                | x # xs \<Rightarrow> x # spec_collapseRuns xs)"
  by (simp add: spec_collapseRuns.simps [of "NL # NL # NL # r"])

lemma collapseNewlines_eq_spec: "collapseNewlines s = spec_collapseRuns s"
proof (induction s rule: length_induct)
  case (1 s)
  then have IH: "\<And>ys. length ys < length s \<Longrightarrow> collapseNewlines ys = spec_collapseRuns ys"
    by blast
  show ?case
  proof (cases s)
    case Nil
    then show ?thesis by (simp add: spec_collapseRuns_Nil)
  next
    case (Cons c cs)
    show ?thesis
    proof (cases "c = NL")
      case False
      with Cons IH [of cs] show ?thesis by (simp add: spec_collapseRuns_other)
    next
      case True
      show ?thesis
      proof (cases "prefix [NL, NL] cs")
        case False
        with Cons True IH [of cs] show ?thesis by (simp add: spec_collapseRuns_short)
      next
        case p: True
        then obtain r where cs: "cs = NL # NL # r" by (auto simp: prefix_def)
        let ?d = "dropWhile (\<lambda>x. x = NL) r"
        have lend: "length ?d \<le> length r" by (rule length_dropWhile_le)
        have "collapseNewlines ?d =
                (case ?d of [] \<Rightarrow> [] | x # xs \<Rightarrow> x # spec_collapseRuns xs)"
        proof (cases ?d)
          case Nil
          then show ?thesis by (simp only: collapseNewlines.simps(1) list.case)
        next
          case (Cons x xs)
          then have "x \<noteq> NL" using hd_dropWhile [of "\<lambda>x. x = NL" r] by auto
          moreover have "length xs < length s"
            using lend Cons by (simp add: \<open>s = c # cs\<close> cs)
          ultimately show ?thesis using Cons IH [of xs] by simp
        qed
        then show ?thesis
          by (simp add: Cons True cs spec_collapseRuns_long)
      qed
    qed
  qed
qed

lemma indexOf_None_iff_sublist: "(indexOf s pat = None) = (\<not> sublist pat s)"
proof
  assume n: "indexOf s pat = None"
  show "\<not> sublist pat s"
  proof
    assume "sublist pat s"
    then obtain ps ss where s: "s = ps @ pat @ ss" by (auto simp: sublist_def)
    then have "prefix pat (drop (length ps) s)" "length ps \<le> length s" by simp_all
    with indexOf_NoneD [OF n] show False by blast
  qed
next
  assume ns: "\<not> sublist pat s"
  show "indexOf s pat = None"
  proof (cases "indexOf s pat")
    case None
    then show ?thesis .
  next
    case (Some i)
    from indexOf_SomeD [OF Some] obtain r where "drop i s = pat @ r" by (auto simp: prefix_def)
    then have "s = take i s @ pat @ r" by (metis append_take_drop_id)
    then have "sublist pat s" unfolding sublist_def by blast
    with ns show ?thesis by simp
  qed
qed

lemma prefix_collapseNewlines:
  "NL \<notin> set p \<Longrightarrow> prefix p (collapseNewlines s) \<Longrightarrow> prefix p s"
proof (induction s arbitrary: p rule: collapseNewlines.induct)
  case 1
  then show ?case by simp
next
  case (2 c cs)
  show ?case
  proof (cases p)
    case Nil
    then show ?thesis by simp
  next
    case (Cons x xs)
    show ?thesis
    proof (cases "c = NL \<and> prefix [NL, NL] cs")
      case True
      with "2.prems" Cons show ?thesis by auto
    next
      case False
      with "2.prems" Cons have "x = c" "prefix xs (collapseNewlines cs)" "NL \<notin> set xs"
        by auto
      with "2.IH"(2) [OF False] Cons show ?thesis by simp
    qed
  qed
qed

lemma sublist_collapseNewlines:
  "NL \<notin> set pat \<Longrightarrow> pat \<noteq> [] \<Longrightarrow> sublist pat (collapseNewlines s) \<Longrightarrow> sublist pat s"
proof (induction s rule: collapseNewlines.induct)
  case 1
  then show ?case by simp
next
  case (2 c cs)
  from "2.prems"(1,2) have hd: "\<not> prefix pat (NL # ys)" for ys
    by (cases pat) auto
  show ?case
  proof (cases "c = NL \<and> prefix [NL, NL] cs")
    case True
    let ?d = "dropWhile (\<lambda>x. x = NL) cs"
    from True "2.prems"(3) have "sublist pat (NL # NL # collapseNewlines ?d)" by simp
    with hd have "sublist pat (collapseNewlines ?d)"
      by (simp add: sublist_Cons_right)
    with "2.IH"(1) [OF True] "2.prems"(1,2) have "sublist pat ?d" by simp
    moreover have "suffix ?d cs" by (rule suffix_dropWhile)
    then have "sublist ?d cs" by (rule suffix_imp_sublist)
    ultimately have "sublist pat cs" by (rule sublist_order.order.trans)
    then show ?thesis by (simp add: sublist_Cons_right)
  next
    case False
    with "2.prems"(3) have "sublist pat (c # collapseNewlines cs)" by auto
    then consider "prefix pat (c # collapseNewlines cs)" | "sublist pat (collapseNewlines cs)"
      by (auto simp: sublist_Cons_right)
    then show ?thesis
    proof cases
      case 1
      have "c # collapseNewlines cs = collapseNewlines (c # cs)" using False by auto
      with 1 have "prefix pat (collapseNewlines (c # cs))" by simp
      with "2.prems"(1) have "prefix pat (c # cs)" by (rule prefix_collapseNewlines)
      then show ?thesis by (rule prefix_imp_sublist)
    next
      case 2
      with "2.IH"(2) [OF False] "2.prems"(1,2) have "sublist pat cs" by simp
      then show ?thesis by (simp add: sublist_Cons_right)
    qed
  qed
qed

lemma sublist_trim: "sublist pat (trim s) \<Longrightarrow> sublist pat s"
proof -
  assume a: "sublist pat (trim s)"
  obtain x y where "s = x @ trim s @ y" using trim_factor by blast
  then have "sublist (trim s) s" unfolding sublist_def by blast
  with a show ?thesis by (rule sublist_order.order.trans)
qed

lemma trim_spec:
  obtains lead trail where "s = lead @ trim s @ trail"
    "\<forall>c\<in>set lead. isWhiteSpace c" "\<forall>c\<in>set trail. isWhiteSpace c"
    "trim s \<noteq> [] \<longrightarrow> \<not> isWhiteSpace (hd (trim s)) \<and> \<not> isWhiteSpace (last (trim s))"
proof -
  let ?d = "dropWhile isWhiteSpace s"
  let ?lead = "takeWhile isWhiteSpace s"
  let ?trail = "rev (takeWhile isWhiteSpace (rev ?d))"
  have "rev (rev ?d) = rev (takeWhile isWhiteSpace (rev ?d) @ dropWhile isWhiteSpace (rev ?d))"
    by (simp only: takeWhile_dropWhile_id)
  then have "?d = rev (dropWhile isWhiteSpace (rev ?d)) @ ?trail"
    by (simp only: rev_rev_ident rev_append)
  then have d: "?d = trim s @ ?trail" by (simp only: trim_def)
  have "s = ?lead @ ?d" by simp
  with d have s: "s = ?lead @ trim s @ ?trail" by simp
  have l: "\<forall>c\<in>set ?lead. isWhiteSpace c" by (auto dest: set_takeWhileD)
  have t: "\<forall>c\<in>set ?trail. isWhiteSpace c" by (auto dest: set_takeWhileD)
  have e: "trim s \<noteq> [] \<longrightarrow> \<not> isWhiteSpace (hd (trim s)) \<and> \<not> isWhiteSpace (last (trim s))"
  proof
    assume ne: "trim s \<noteq> []"
    then have r: "dropWhile isWhiteSpace (rev ?d) \<noteq> []" by (simp add: trim_def)
    have "last (trim s) = hd (dropWhile isWhiteSpace (rev ?d))"
      using r by (simp add: trim_def last_rev)
    with hd_dropWhile [OF r] have 1: "\<not> isWhiteSpace (last (trim s))" by simp
    have dne: "?d \<noteq> []"
    proof
      assume "?d = []"
      with d have "trim s @ ?trail = []" by (simp only:)
      with ne show False by simp
    qed
    have "hd ?d = hd (trim s)" using ne by (subst d) simp
    with hd_dropWhile [OF dne] have 2: "\<not> isWhiteSpace (hd (trim s))" by simp
    from 1 2 show "\<not> isWhiteSpace (hd (trim s)) \<and> \<not> isWhiteSpace (last (trim s))" by simp
  qed
  from s l t e show ?thesis by (rule that)
qed

lemma removeSection_found_full:
  assumes "extractSection F slug = Some sec"
  obtains pre post e where
    "F = pre @ sec @ post"
    "indexOf F (sectionStart slug) = Some (length pre)"
    "indexOf F (sectionEnd slug) = Some e"
    "length pre + length sec = e + length (sectionEnd slug)"
    "removeSection F slug = trim (collapseNewlines (pre @ post))"
proof -
  from extractSection_SomeD [OF assms] obtain pre post e where
    F: "F = pre @ sec @ post" and
    i: "indexOf F (sectionStart slug) = Some (length pre)" and
    e: "indexOf F (sectionEnd slug) = Some e" and
    len: "length pre + length sec = e + length (sectionEnd slug)" and
    ps: "prefix (sectionStart slug) sec"
    by blast
  have isec: "indexOf F sec = Some (length pre)"
    using F i ps by (rule indexOf_section)
  from ps have ne: "sec \<noteq> []" by (auto simp: sectionStart_def)
  have "replaceStr F sec [] = pre @ getSubstitution sec pre post [] @ post"
    using F isec by (rule replaceStr_section)
  then have "removeSection F slug = trim (collapseNewlines (pre @ post))"
    using assms ne by (simp add: removeSection_def)
  with F i e len show ?thesis by (rule that)
qed


section \<open>Facts about path resolution\<close>

lemma splitSlash_nonempty: "splitSlash s \<noteq> []"
  by (induction s) (auto split: list.splits)

lemma splitSlash_append:
  "splitSlash (a @ CHR ''/'' # b) = splitSlash a @ splitSlash b"
proof (induction a)
  case Nil
  show ?case by simp
next
  case (Cons c a)
  obtain s ss where "splitSlash a = s # ss"
    using splitSlash_nonempty [of a] by (cases "splitSlash a") auto
  with Cons show ?case by simp
qed

lemma segments_append:
  "segments (a @ CHR ''/'' # b) = segments a @ segments b"
  by (simp add: segments_def splitSlash_append)

lemma splitSlash_no_slash: "s \<in> set (splitSlash p) \<Longrightarrow> CHR ''/'' \<notin> set s"
proof (induction p arbitrary: s)
  case Nil
  then show ?case by simp
next
  case (Cons c p)
  obtain t ts where t: "splitSlash p = t # ts"
    using splitSlash_nonempty [of p] by (cases "splitSlash p") auto
  with Cons show ?case by (auto split: if_splits)
qed

lemma splitSlash_plain: "CHR ''/'' \<notin> set s \<Longrightarrow> splitSlash s = [s]"
  by (induction s) auto

lemma splitSlash_joinSlash:
  "segs \<noteq> [] \<Longrightarrow> \<forall>s\<in>set segs. CHR ''/'' \<notin> set s \<Longrightarrow> splitSlash (joinSlash segs) = segs"
proof (induction segs rule: joinSlash.induct)
  case 1
  then show ?case by simp
next
  case (2 s)
  then show ?case by (simp add: splitSlash_plain)
next
  case (3 s t ss)
  then show ?case by (simp add: splitSlash_append splitSlash_plain)
qed

lemma segments_joinSlash:
  assumes "\<forall>s\<in>set segs. s \<noteq> [] \<and> CHR ''/'' \<notin> set s"
  shows "segments (CHR ''/'' # joinSlash segs) = segs"
proof (cases "segs = []")
  case True
  then show ?thesis by (simp add: segments_def)
next
  case False
  with assms have "splitSlash (joinSlash segs) = segs"
    by (intro splitSlash_joinSlash) auto
  moreover from assms have "filter (\<lambda>s. s \<noteq> []) segs = segs"
    by (simp add: filter_id_conv)
  ultimately show ?thesis by (simp add: segments_def)
qed

lemma normalizeSegs_plain:
  "\<forall>s\<in>set st. plainSeg s \<Longrightarrow> \<forall>s\<in>set ss. CHR ''/'' \<notin> set s
     \<Longrightarrow> \<forall>s\<in>set (normalizeSegs False st ss). plainSeg s"
proof (induction ss arbitrary: st)
  case Nil
  then show ?case by simp
next
  case (Cons s ss)
  show ?case
  proof (cases "s = [] \<or> s = ''.''")
    case True
    with Cons show ?thesis by simp
  next
    case False
    show ?thesis
    proof (cases "s = ''..''")
      case True
      have tl: "\<forall>t\<in>set (tl st). plainSeg t" using Cons.prems(1) by (cases st) auto
      have "normalizeSegs False st (s # ss) = normalizeSegs False (tl st) ss"
        using True Cons.prems(1) by (cases st) (auto simp: plainSeg_def)
      with Cons.IH [OF tl] Cons.prems(2) show ?thesis by simp
    next
      case nd: False
      have "\<forall>t\<in>set (s # st). plainSeg t"
        using False nd Cons.prems by (simp add: plainSeg_def)
      from Cons.IH [OF this] Cons.prems(2) False nd show ?thesis by simp
    qed
  qed
qed

lemma resolveLoop_absolute:
  "prefix ''/'' procCwd \<Longrightarrow> snd (resolveLoop (xs @ [procCwd]) acc)"
proof (induction xs arbitrary: acc)
  case Nil
  then show ?case by (auto simp: prefix_def)
next
  case (Cons x xs)
  then show ?case by simp
qed

lemma pathResolve_absolute:
  assumes "prefix ''/'' procCwd"
  obtains segs where "pathResolve procCwd args = CHR ''/'' # joinSlash segs"
    and "\<forall>s\<in>set segs. plainSeg s"
proof -
  obtain rp ab where r: "resolveLoop (rev args @ [procCwd]) [] = (rp, ab)"
    by (cases "resolveLoop (rev args @ [procCwd]) []")
  with resolveLoop_absolute [OF assms, of "rev args" "[]"] have ab by simp
  let ?segs = "normalizeSegs False [] (splitSlash rp)"
  have "pathResolve procCwd args = CHR ''/'' # joinSlash ?segs"
    using r \<open>ab\<close> by (simp add: pathResolve_def)
  moreover have "\<forall>s\<in>set ?segs. plainSeg s"
    by (rule normalizeSegs_plain) (auto dest: splitSlash_no_slash)
  ultimately show ?thesis using that by blast
qed

lemma pathResolve_segments:
  assumes "prefix ''/'' procCwd"
  shows "prefix ''/'' (pathResolve procCwd args)
         \<and> ''..'' \<notin> set (segments (pathResolve procCwd args))
         \<and> ''.'' \<notin> set (segments (pathResolve procCwd args))"
proof -
  from pathResolve_absolute [OF assms] obtain segs where
    p: "pathResolve procCwd args = CHR ''/'' # joinSlash segs" and
    g: "\<forall>s\<in>set segs. plainSeg s" by blast
  from g have "segments (CHR ''/'' # joinSlash segs) = segs"
    by (intro segments_joinSlash) (auto simp: plainSeg_def)
  with p g show ?thesis by (auto simp: plainSeg_def)
qed

lemma inside_segments:
  assumes "prefix (b @ ''/'') r \<or> r = b"
  shows "prefix (segments b) (segments r)"
proof -
  from assms consider t where "r = b @ CHR ''/'' # t" | "r = b"
    by (auto simp: prefix_def)
  then show ?thesis
  proof cases
    case 1
    then show ?thesis by (simp add: segments_append)
  next
    case 2
    then show ?thesis by simp
  qed
qed


text \<open>Unfolding the registry client on concrete inputs.\<close>

lemmas evReg = remoteEnv_def readOnlyEnv_def lateEnv_def okResponse_def notFoundResponse_def
  serverErrorResponse_def cachedContent_def contentWorld_def emptyWorld_def truthy_def ok_def


section \<open>Expiry\<close>

text \<open>
  Claim C9, as amended. For finite values of the clock, the timestamp and the TTL
  whose difference \<open>now - ts\<close> binary64 holds exactly, and so for all integer millisecond
  values whose age \<open>now - ts\<close> is at most \<^verbatim>\<open>2^53\<close> in magnitude, \<open>isExpired\<close> holds exactly
  when the age is at least the TTL; the boundary is inclusive: an entry whose age is
  exactly the TTL is expired, and one a millisecond younger is not. In general
  \<open>isExpired\<close> compares the age as binary64 subtraction rounds it, and it is false
  whenever the clock, the timestamp or the TTL is not a number.

  Beyond \<^verbatim>\<open>2^53\<close> the rounding shows: an age one millisecond short of the TTL can round
  up to the TTL, and the entry counts as expired.
\<close>

theorem isExpired_iff_age_ge_ttl:
  "(roundDouble (a - b) = Fin (a - b) \<longrightarrow> isExpired (Fin a) (Fin b) (Fin c) = (a - b \<ge> c))
   \<and> (\<bar>now - ts\<bar> \<le> 2 ^ 53 \<longrightarrow> isExpired (ofInt now) (ofInt ts) (ofInt t) = (now - ts \<ge> t))
   \<and> (\<bar>t\<bar> \<le> 2 ^ 53 \<longrightarrow> isExpired (ofInt (ts + t)) (ofInt ts) (ofInt t))
   \<and> (\<bar>t - 1\<bar> \<le> 2 ^ 53 \<longrightarrow> \<not> isExpired (ofInt (ts + t - 1)) (ofInt ts) (ofInt t))
   \<and> (roundNat (nat \<bar>now - ts\<bar>) < 2 ^ 1024 \<longrightarrow>
        isExpired (ofInt now) (ofInt ts) (ofInt t) = (roundInt (now - ts) \<ge> t))
   \<and> \<not> isExpired x NaN y \<and> \<not> isExpired NaN x y \<and> \<not> isExpired x y NaN"
proof (intro conjI impI)
  assume "roundDouble (a - b) = Fin (a - b)"
  then show "isExpired (Fin a) (Fin b) (Fin c) = (a - b \<ge> c)"
    by (simp add: isExpired_def)
next
  assume "\<bar>now - ts\<bar> \<le> 2 ^ 53"
  then show "isExpired (ofInt now) (ofInt ts) (ofInt t) = (now - ts \<ge> t)"
    by (rule isExpired_ofInt)
next
  assume "\<bar>t\<bar> \<le> 2 ^ 53"
  then have "\<bar>ts + t - ts\<bar> \<le> 2 ^ 53" by simp
  from isExpired_ofInt [OF this] show "isExpired (ofInt (ts + t)) (ofInt ts) (ofInt t)" by simp
next
  assume "\<bar>t - 1\<bar> \<le> 2 ^ 53"
  then have "\<bar>ts + t - 1 - ts\<bar> \<le> 2 ^ 53" by simp
  from isExpired_ofInt [OF this]
  show "\<not> isExpired (ofInt (ts + t - 1)) (ofInt ts) (ofInt t)" by simp
next
  assume "roundNat (nat \<bar>now - ts\<bar>) < 2 ^ 1024"
  then show "isExpired (ofInt now) (ofInt ts) (ofInt t) = (roundInt (now - ts) \<ge> t)"
    by (simp add: isExpired_def jsSub_ofInt_rounded jsGe_ofInt)
next
  show "\<not> isExpired x NaN y" by (cases x) (simp_all add: isExpired_def)
  show "\<not> isExpired NaN x y" by (simp add: isExpired_def)
  show "\<not> isExpired x y NaN" by (cases "jsSub x y") (simp_all add: isExpired_def)
qed

theorem isExpired_iff_age_ge_ttl_witness:
  "\<bar>1700086400000 - 1700000000000\<bar> \<le> (2 ^ 53 :: int)
   \<and> isExpired (ofInt 1700086400000) (ofInt 1700000000000) (ofInt 86400000)
   \<and> \<bar>86400000 - 1\<bar> \<le> (2 ^ 53 :: int)
   \<and> \<not> isExpired (ofInt 1700086399999) (ofInt 1700000000000) (ofInt 86400000)
   \<and> roundNat (nat \<bar>1700003600003 - (- (2 ^ 53))\<bar>) < 2 ^ 1024
   \<and> isExpired (ofInt 1700003600003) (ofInt (- (2 ^ 53))) (ofInt 9008899258340996)
       = (roundInt (1700003600003 - (- (2 ^ 53))) \<ge> 9008899258340996)"
proof -
  have h1: "\<bar>1700086400000 - 1700000000000\<bar> \<le> (2 ^ 53 :: int)" by simp
  have h2: "\<bar>86400000 - 1\<bar> \<le> (2 ^ 53 :: int)" by simp
  have h3: "roundNat (nat \<bar>1700003600003 - (- (2 ^ 53))\<bar>) < 2 ^ 1024"
    by (simp add: roundNat_def bitLength.simps)
  from isExpired_iff_age_ge_ttl [of _ _ _ 1700086400000 1700000000000 86400000] h1
  have c1: "isExpired (ofInt 1700086400000) (ofInt 1700000000000) (ofInt 86400000)" by simp
  from isExpired_iff_age_ge_ttl [of _ _ _ _ 1700000000000 86400000] h2
  have c2: "\<not> isExpired (ofInt 1700086399999) (ofInt 1700000000000) (ofInt 86400000)" by simp
  from isExpired_iff_age_ge_ttl [of _ _ _ 1700003600003 "- (2 ^ 53)" 9008899258340996] h3
  have c3: "isExpired (ofInt 1700003600003) (ofInt (- (2 ^ 53))) (ofInt 9008899258340996)
       = (roundInt (1700003600003 - (- (2 ^ 53))) \<ge> 9008899258340996)" by blast
  from h1 h2 h3 c1 c2 c3 show ?thesis by blast
qed

theorem isExpired_iff_age_ge_ttl_counterexample:
  "isExpired (ofInt 1700003600003) (ofInt (- (2 ^ 53))) (ofInt 9008899258340996)
   \<and> \<not> (1700003600003 - (- (2 ^ 53)) \<ge> (9008899258340996 :: int))"
proof -
  have d: "nat \<bar>1700003600003 - (- (2 ^ 53))\<bar> = (9008899258340995::nat)" by simp
  have b: "bitLength 9008899258340995 = 54" by (simp add: bitLength.simps)
  have r: "roundNat 9008899258340995 = 9008899258340996" by (simp add: roundNat_def b)
  have "roundNat (nat \<bar>1700003600003 - (- (2 ^ 53))\<bar>) < 2 ^ 1024"
    unfolding d r by simp
  from jsSub_ofInt_rounded [OF this]
  have "jsSub (ofInt 1700003600003) (ofInt (- (2 ^ 53))) = ofInt 9008899258340996"
    unfolding roundInt_def d r by simp
  then show ?thesis by (simp add: isExpired_def jsGe_ofInt)
qed


section \<open>Rendering for an agent\<close>

text \<open>
  Claim C10. For an agent configuration without header, without custom transform and
  with \<open>appendMode\<close> false, \<open>transformForAgent\<close> returns the content unchanged, the
  resolved path it was given, and \<open>appendMode\<close> false.
\<close>

theorem transformForAgent_plain_identity:
  assumes "header agent = None" and "transform agent = None" and "\<not> appendMode agent"
  shows "content (transformForAgent cont hintName agent resolvedPath) = cont
         \<and> resPath (transformForAgent cont hintName agent resolvedPath) = resolvedPath
         \<and> resAppendMode (transformForAgent cont hintName agent resolvedPath) = False"
  using assms by (simp add: transformForAgent_def resolveAgentHeader_def)

theorem transformForAgent_plain_identity_witness:
  "header mockAgent = None \<and> transform mockAgent = None \<and> \<not> appendMode mockAgent
   \<and> content (transformForAgent ''# Test Hint'' ''example-hint'' mockAgent
                 ''.test/rules/example-hint.md'') = ''# Test Hint''
   \<and> resPath (transformForAgent ''# Test Hint'' ''example-hint'' mockAgent
                 ''.test/rules/example-hint.md'') = ''.test/rules/example-hint.md''
   \<and> resAppendMode (transformForAgent ''# Test Hint'' ''example-hint'' mockAgent
                 ''.test/rules/example-hint.md'') = False"
  using transformForAgent_plain_identity
          [of mockAgent "''# Test Hint''" "''example-hint''" "''.test/rules/example-hint.md''"]
  by (simp add: mockAgent_def)


section \<open>Upsert followed by extract\<close>

text \<open>
  Claim C1, as amended. Let \<open>S = wrapInSection c slug\<close> be a section text in which the
  end marker occurs only at the very end. If the file \<open>F\<close> already holds a section for
  the slug and \<open>S\<close> contains none of the replacement patterns of \<^verbatim>\<open>String.replace\<close>, or
  if \<open>F\<close> contains neither marker of the slug and the slug contains no newline, then
  extracting the slug's section from \<open>upsertSection F slug S\<close> gives back \<open>S\<close>.

  For an arbitrary file the round trip fails: a file in which only the start marker
  exists has no section, the new section is appended, and the extraction then runs from
  the stray start marker to the end of the new section. It also fails for a section
  whose content quotes the end marker: the extraction stops at the quoted marker.
\<close>

theorem upsert_extract_roundtrip:
  assumes "indexOf (wrapInSection c slug) (sectionEnd slug)
             = Some (length (wrapInSection c slug) - length (sectionEnd slug))"
    and "(extractSection F slug \<noteq> None \<and> \<not> hasSubstPattern (wrapInSection c slug))
         \<or> (indexOf F (sectionStart slug) = None \<and> indexOf F (sectionEnd slug) = None
             \<and> NL \<notin> set slug)"
  shows "extractSection (upsertSection F slug (wrapInSection c slug)) slug
           = Some (wrapInSection c slug)"
proof -
  have S1: "prefix (sectionStart slug) (wrapInSection c slug)"
    by (simp add: wrapInSection_def)
  from assms(2) show ?thesis
  proof
    assume "extractSection F slug \<noteq> None \<and> \<not> hasSubstPattern (wrapInSection c slug)"
    then obtain sec where "extractSection F slug = Some sec"
      and "\<not> hasSubstPattern (wrapInSection c slug)" by auto
    then show ?thesis using S1 assms(1) by (rule roundtrip_replace)
  next
    assume "indexOf F (sectionStart slug) = None \<and> indexOf F (sectionEnd slug) = None
            \<and> NL \<notin> set slug"
    then show ?thesis using S1 assms(1) by (auto intro: roundtrip_append)
  qed
qed

theorem upsert_extract_roundtrip_witness:
  "indexOf (wrapInSection ''NEW'' ''x'') (sectionEnd ''x'')
     = Some (length (wrapInSection ''NEW'' ''x'') - length (sectionEnd ''x''))
   \<and> extractSection rulesFileOld ''x'' \<noteq> None
   \<and> \<not> hasSubstPattern (wrapInSection ''NEW'' ''x'')
   \<and> extractSection (upsertSection rulesFileOld ''x'' (wrapInSection ''NEW'' ''x'')) ''x''
       = Some (wrapInSection ''NEW'' ''x'')
   \<and> indexOf ''# Rules'' (sectionStart ''x'') = None
   \<and> indexOf ''# Rules'' (sectionEnd ''x'') = None
   \<and> NL \<notin> set ''x''
   \<and> extractSection (upsertSection ''# Rules'' ''x'' (wrapInSection ''NEW'' ''x'')) ''x''
       = Some (wrapInSection ''NEW'' ''x'')"
proof -
  have h1: "indexOf (wrapInSection ''NEW'' ''x'') (sectionEnd ''x'')
     = Some (length (wrapInSection ''NEW'' ''x'') - length (sectionEnd ''x''))"
    by (simp add: ev)
  have h2: "extractSection rulesFileOld ''x'' \<noteq> None"
    by (simp add: ev)
  have h3: "\<not> hasSubstPattern (wrapInSection ''NEW'' ''x'')"
    by (simp add: ev)
  have h4: "indexOf ''# Rules'' (sectionStart ''x'') = None"
    "indexOf ''# Rules'' (sectionEnd ''x'') = None" "NL \<notin> set ''x''"
    by (simp_all add: ev)
  show ?thesis
    using h1 h2 h3 h4
      upsert_extract_roundtrip [of "''NEW''" "''x''" rulesFileOld]
      upsert_extract_roundtrip [of "''NEW''" "''x''" "''# Rules''"]
    by blast
qed

theorem upsert_extract_roundtrip_counterexample:
  "extractSection (upsertSection unterminatedFile ''x'' (wrapInSection ''NEW'' ''x'')) ''x''
     = Some (unterminatedFile @ [NL, NL] @ wrapInSection ''NEW'' ''x'')
   \<and> extractSection (upsertSection unterminatedFile ''x'' (wrapInSection ''NEW'' ''x'')) ''x''
     \<noteq> Some (wrapInSection ''NEW'' ''x'')
   \<and> extractSection (upsertSection [] ''x'' quotingSection) ''x''
     = Some (sectionStart ''x'' @ [NL] @ ''see '' @ sectionEnd ''x'')
   \<and> extractSection (upsertSection [] ''x'' quotingSection) ''x'' \<noteq> Some quotingSection"
  by (simp add: ev quotingSection_def)


section \<open>Upsert\<close>

text \<open>
  Claim C4, at an input where the code departs from it. The file of Scenario 2 holds a
  section for the slug \<open>x\<close>; the new section's content is \<^verbatim>\<open>Run make with $$HOME\<close>.
  \<^verbatim>\<open>upsertSection\<close> replaces the old section through \<^verbatim>\<open>String.replace\<close>, which reads
  \<^verbatim>\<open>$$\<close> in the replacement as one dollar sign: the result holds
  \<^verbatim>\<open>Run make with $HOME\<close> and is not the file with the section replaced by the new
  section text.
\<close>

theorem upsertSection_dollar_pattern:
  "extractSection rulesFileOld ''x'' = Some (wrapInSection ''OLD'' ''x'')
   \<and> upsertSection rulesFileOld ''x'' dollarSection
       = ''# Rules'' @ [NL, NL] @ wrapInSection ''Run make with $HOME'' ''x''
   \<and> upsertSection rulesFileOld ''x'' dollarSection
       \<noteq> ''# Rules'' @ [NL, NL] @ dollarSection"
  by (simp add: ev dollarSection_def)


section \<open>Removing twice\<close>

text \<open>
  Claim C3, as amended. Let the slug contain no newline, and let the file \<open>F\<close> hold at
  most one section for it: whenever \<open>F\<close> is \<open>pre @ sec @ post\<close> with \<open>sec\<close> the section
  that \<open>extractSection\<close> finds, the rest \<open>pre @ post\<close> holds no start marker of the slug.
  Then removing the section a second time changes nothing:
  \<open>removeSection (removeSection F slug) slug = removeSection F slug\<close>.
  For every file, the second removal changes nothing exactly when the first removal
  left no section for the slug; a section that is left is deleted by the second
  removal, which gives a strictly shorter text.

  A file with two sections for one slug shows the difference: the first removal leaves
  the second section, the second removal leaves the empty string.
\<close>

theorem removeSection_idempotent_single:
  "(NL \<notin> set slug
      \<and> (\<forall>pre sec post. F = pre @ sec @ post \<and> extractSection F slug = Some sec
             \<longrightarrow> \<not> sublist (sectionStart slug) (pre @ post))
      \<longrightarrow> removeSection (removeSection F slug) slug = removeSection F slug)
   \<and> ((removeSection (removeSection F slug) slug = removeSection F slug)
        = (extractSection (removeSection F slug) slug = None))
   \<and> (\<forall>s. extractSection (removeSection F slug) slug = Some s
          \<longrightarrow> length (removeSection (removeSection F slug) slug)
                < length (removeSection F slug))"
proof (intro conjI impI allI)
  assume h: "NL \<notin> set slug
      \<and> (\<forall>pre sec post. F = pre @ sec @ post \<and> extractSection F slug = Some sec
             \<longrightarrow> \<not> sublist (sectionStart slug) (pre @ post))"
  show "removeSection (removeSection F slug) slug = removeSection F slug"
  proof (cases "extractSection F slug")
    case None
    then show ?thesis by (simp add: removeSection_def)
  next
    case (Some sec)
    from removeSection_found [OF Some] obtain pre post where
      F: "F = pre @ sec @ post" and
      r: "removeSection F slug = trim (collapseNewlines (pre @ post))"
      by blast
    from h F Some have rest: "\<not> sublist (sectionStart slug) (pre @ post)" by blast
    from h have nl: "NL \<notin> set (sectionStart slug)" by (simp add: sectionStart_def)
    have ne: "sectionStart slug \<noteq> []" by (simp add: sectionStart_def)
    have "\<not> sublist (sectionStart slug) (removeSection F slug)"
    proof
      assume "sublist (sectionStart slug) (removeSection F slug)"
      then have "sublist (sectionStart slug) (collapseNewlines (pre @ post))"
        unfolding r by (rule sublist_trim)
      then have "sublist (sectionStart slug) (pre @ post)"
        by (rule sublist_collapseNewlines [OF nl ne])
      with rest show False by simp
    qed
    then have "indexOf (removeSection F slug) (sectionStart slug) = None"
      by (simp add: indexOf_None_iff_sublist)
    then have "extractSection (removeSection F slug) slug = None"
      by (simp add: extractSection_def)
    then show ?thesis by (simp add: removeSection_def [of "removeSection F slug"])
  qed
next
  show "(removeSection (removeSection F slug) slug = removeSection F slug)
        = (extractSection (removeSection F slug) slug = None)"
  proof (cases "extractSection (removeSection F slug) slug")
    case None
    then show ?thesis by (simp add: removeSection_def [of "removeSection F slug"])
  next
    case (Some sec)
    from removeSection_shrinks [OF Some] Some show ?thesis by auto
  qed
next
  fix s assume "extractSection (removeSection F slug) slug = Some s"
  then show "length (removeSection (removeSection F slug) slug) < length (removeSection F slug)"
    by (rule removeSection_shrinks)
qed

theorem removeSection_idempotent_single_witness:
  "NL \<notin> set ''x''
   \<and> extractSection rulesFileMore ''x'' = Some (wrapInSection ''OLD'' ''x'')
   \<and> removeSection rulesFileMore ''x'' = ''# Rules'' @ [NL, NL] @ ''More.''
   \<and> removeSection (removeSection rulesFileMore ''x'') ''x'' = removeSection rulesFileMore ''x''"
proof -
  have h1: "NL \<notin> set ''x''" by simp
  have h2: "extractSection rulesFileMore ''x'' = Some (wrapInSection ''OLD'' ''x'')"
    by (simp add: ev rulesFileMore_def)
  have h3: "\<forall>pre sec post. rulesFileMore = pre @ sec @ post
          \<and> extractSection rulesFileMore ''x'' = Some sec
          \<longrightarrow> \<not> sublist (sectionStart ''x'') (pre @ post)"
  proof (intro allI impI)
    fix pre sec post
    assume a: "rulesFileMore = pre @ sec @ post \<and> extractSection rulesFileMore ''x'' = Some sec"
    with h2 have sec: "sec = wrapInSection ''OLD'' ''x''" by simp
    from a have "length rulesFileMore = length (pre @ sec @ post)" by simp
    then have "length (pre @ post) = 20"
      by (simp add: sec ev rulesFileMore_def)
    moreover have "length (sectionStart ''x'') = 27" by (simp add: sectionStart_def)
    ultimately show "\<not> sublist (sectionStart ''x'') (pre @ post)"
      using sublist_length_le [of "sectionStart ''x''" "pre @ post"] by auto
  qed
  have h4: "removeSection rulesFileMore ''x'' = ''# Rules'' @ [NL, NL] @ ''More.''"
    by (simp add: ev rulesFileMore_def removeSection_def)
  from removeSection_idempotent_single [of "''x''" rulesFileMore] h1 h3
  have "removeSection (removeSection rulesFileMore ''x'') ''x'' = removeSection rulesFileMore ''x''"
    by blast
  with h1 h2 h3 h4 show ?thesis by blast
qed

theorem removeSection_idempotent_single_counterexample:
  "removeSection twoSections ''x'' = wrapInSection ''b'' ''x''
   \<and> removeSection (removeSection twoSections ''x'') ''x'' = []
   \<and> removeSection (removeSection twoSections ''x'') ''x'' \<noteq> removeSection twoSections ''x''"
  by (simp add: ev twoSections_def removeSection_def)


section \<open>Removing a section\<close>

text \<open>
  Claim C5. When no section for the slug is found, \<open>removeSection\<close> returns the file
  text unchanged. When a section \<open>sec\<close> is found, the file is \<open>pre @ sec @ post\<close>, where
  \<open>sec\<close> starts at the first start marker and ends with the first end marker; in
  \<open>pre @ post\<close>, the file with exactly that section deleted, every run of three or more
  newlines is collapsed to two; and the result is that text without its leading and
  trailing whitespace: whitespace before it, whitespace after it, and itself neither
  starting nor ending with whitespace. On a file that consists of its section only,
  the result is the empty string.
\<close>

theorem removeSection_spec:
  "(extractSection F slug = None \<longrightarrow> removeSection F slug = F)
   \<and> (\<forall>sec. extractSection F slug = Some sec \<longrightarrow>
         (\<exists>pre post e lead trail.
              F = pre @ sec @ post
            \<and> indexOf F (sectionStart slug) = Some (length pre)
            \<and> indexOf F (sectionEnd slug) = Some e
            \<and> length pre + length sec = e + length (sectionEnd slug)
            \<and> spec_collapseRuns (pre @ post) = lead @ removeSection F slug @ trail
            \<and> (\<forall>c\<in>set lead. isWhiteSpace c)
            \<and> (\<forall>c\<in>set trail. isWhiteSpace c)
            \<and> (removeSection F slug \<noteq> [] \<longrightarrow>
                  \<not> isWhiteSpace (hd (removeSection F slug))
                  \<and> \<not> isWhiteSpace (last (removeSection F slug)))))
   \<and> (extractSection F slug = Some F \<longrightarrow> removeSection F slug = [])"
proof (intro conjI allI impI)
  assume "extractSection F slug = None"
  then show "removeSection F slug = F" by (simp add: removeSection_def)
next
  fix sec assume "extractSection F slug = Some sec"
  from removeSection_found_full [OF this] obtain pre post e where
    F: "F = pre @ sec @ post" and
    i: "indexOf F (sectionStart slug) = Some (length pre)" and
    e: "indexOf F (sectionEnd slug) = Some e" and
    len: "length pre + length sec = e + length (sectionEnd slug)" and
    r: "removeSection F slug = trim (spec_collapseRuns (pre @ post))"
    by (metis collapseNewlines_eq_spec)
  obtain lead trail where
    t: "spec_collapseRuns (pre @ post) = lead @ trim (spec_collapseRuns (pre @ post)) @ trail"
      "\<forall>c\<in>set lead. isWhiteSpace c" "\<forall>c\<in>set trail. isWhiteSpace c"
      "trim (spec_collapseRuns (pre @ post)) \<noteq> [] \<longrightarrow>
         \<not> isWhiteSpace (hd (trim (spec_collapseRuns (pre @ post))))
         \<and> \<not> isWhiteSpace (last (trim (spec_collapseRuns (pre @ post))))"
    by (rule trim_spec)
  from F i e len t show
    "\<exists>pre post e lead trail.
        F = pre @ sec @ post
      \<and> indexOf F (sectionStart slug) = Some (length pre)
      \<and> indexOf F (sectionEnd slug) = Some e
      \<and> length pre + length sec = e + length (sectionEnd slug)
      \<and> spec_collapseRuns (pre @ post) = lead @ removeSection F slug @ trail
      \<and> (\<forall>c\<in>set lead. isWhiteSpace c)
      \<and> (\<forall>c\<in>set trail. isWhiteSpace c)
      \<and> (removeSection F slug \<noteq> [] \<longrightarrow>
            \<not> isWhiteSpace (hd (removeSection F slug))
            \<and> \<not> isWhiteSpace (last (removeSection F slug)))"
    unfolding r by blast
next
  assume "extractSection F slug = Some F"
  from removeSection_found [OF this] obtain pre post where
    F: "F = pre @ F @ post" and r: "removeSection F slug = trim (collapseNewlines (pre @ post))"
    by blast
  have "length F = length (pre @ F @ post)"
    by (rule arg_cong [OF F, of length])
  then have "pre = []" "post = []" by simp_all
  with r show "removeSection F slug = []" by (simp add: trim_def)
qed

theorem removeSection_spec_witness:
  "extractSection ''# Rules'' ''x'' = None \<and> removeSection ''# Rules'' ''x'' = ''# Rules''
   \<and> extractSection rulesFileMore ''x'' = Some (wrapInSection ''OLD'' ''x'')
   \<and> (\<exists>pre post e lead trail.
          rulesFileMore = pre @ wrapInSection ''OLD'' ''x'' @ post
        \<and> indexOf rulesFileMore (sectionStart ''x'') = Some (length pre)
        \<and> indexOf rulesFileMore (sectionEnd ''x'') = Some e
        \<and> length pre + length (wrapInSection ''OLD'' ''x'') = e + length (sectionEnd ''x'')
        \<and> spec_collapseRuns (pre @ post) = lead @ removeSection rulesFileMore ''x'' @ trail)
   \<and> removeSection rulesFileMore ''x'' = ''# Rules'' @ [NL, NL] @ ''More.''
   \<and> removeSection rulesFileOld ''x'' = ''# Rules''
   \<and> extractSection (wrapInSection ''OLD'' ''x'') ''x'' = Some (wrapInSection ''OLD'' ''x'')
   \<and> removeSection (wrapInSection ''OLD'' ''x'') ''x'' = []"
proof -
  have h1: "extractSection ''# Rules'' ''x'' = None" by (simp add: ev)
  have h2: "extractSection rulesFileMore ''x'' = Some (wrapInSection ''OLD'' ''x'')"
    by (simp add: ev rulesFileMore_def)
  have h3: "extractSection (wrapInSection ''OLD'' ''x'') ''x'' = Some (wrapInSection ''OLD'' ''x'')"
    by (simp add: ev)
  have v1: "removeSection rulesFileMore ''x'' = ''# Rules'' @ [NL, NL] @ ''More.''"
    by (simp add: ev rulesFileMore_def removeSection_def)
  have v2: "removeSection rulesFileOld ''x'' = ''# Rules''"
    by (simp add: ev removeSection_def)
  show ?thesis
    using h1 h2 h3 v1 v2 removeSection_spec [of "''# Rules''" "''x''"]
      removeSection_spec [of rulesFileMore "''x''"]
      removeSection_spec [of "wrapInSection ''OLD'' ''x''" "''x''"]
    by blast
qed


section \<open>Markers in the rendered output\<close>

text \<open>
  Claim C6, as amended. With \<open>appendMode\<close> true the rendered content is the start
  marker, a newline, the header-prefixed and custom-transformed content, a newline and
  the end marker, so it contains both markers of the slug. With \<open>appendMode\<close> false no
  marker is added: the rendered content is exactly the header-prefixed,
  custom-transformed content, and for an agent without header and custom transform it
  contains a marker exactly when the input content does.

  A content that itself holds the markers is rendered with them when \<open>appendMode\<close> is
  false.
\<close>

theorem transformForAgent_markers:
  "(appendMode agent \<longrightarrow>
      content (transformForAgent c slug agent p)
        = sectionStart slug @ [NL] @ spec_rendered c slug agent @ [NL] @ sectionEnd slug
      \<and> sublist (sectionStart slug) (content (transformForAgent c slug agent p))
      \<and> sublist (sectionEnd slug) (content (transformForAgent c slug agent p)))
   \<and> (\<not> appendMode agent \<longrightarrow>
        content (transformForAgent c slug agent p) = spec_rendered c slug agent)
   \<and> (\<not> appendMode agent \<and> header agent = None \<and> transform agent = None \<longrightarrow>
        content (transformForAgent c slug agent p) = c
        \<and> (\<forall>marker. sublist marker (content (transformForAgent c slug agent p))
                      = sublist marker c))"
proof -
  have core: "(case transform agent of
                 None \<Rightarrow> (case resolveAgentHeader agent slug of
                            None \<Rightarrow> c
                          | Some h \<Rightarrow> if h = [] then c else h @ [NL, NL] @ c)
               | Some f \<Rightarrow> f (case resolveAgentHeader agent slug of
                                None \<Rightarrow> c
                              | Some h \<Rightarrow> if h = [] then c else h @ [NL, NL] @ c) slug)
              = spec_rendered c slug agent"
    by (auto simp: spec_rendered_def resolveAgentHeader_def Let_def
             split: option.splits agentHeader.splits)
  have wrapped: "appendMode agent \<Longrightarrow> content (transformForAgent c slug agent p)
        = sectionStart slug @ [NL] @ spec_rendered c slug agent @ [NL] @ sectionEnd slug"
    by (simp add: transformForAgent_def Let_def wrapInSection_def core)
  have plain: "\<not> appendMode agent \<Longrightarrow>
        content (transformForAgent c slug agent p) = spec_rendered c slug agent"
    by (simp add: transformForAgent_def Let_def core)
  have s1: "sublist (sectionStart slug)
              (sectionStart slug @ [NL] @ spec_rendered c slug agent @ [NL] @ sectionEnd slug)"
    by (rule sublist_append_rightI)
  have s2: "sublist (sectionEnd slug)
              ((sectionStart slug @ [NL] @ spec_rendered c slug agent @ [NL]) @ sectionEnd slug)"
    by (rule sublist_append_leftI)
  have bare: "header agent = None \<Longrightarrow> transform agent = None \<Longrightarrow> spec_rendered c slug agent = c"
    by (simp add: spec_rendered_def)
  show ?thesis using wrapped plain s1 s2 bare by auto
qed

theorem transformForAgent_markers_witness:
  "appendMode mockAppendAgent
   \<and> content (transformForAgent ''# Test Hint'' ''x'' mockAppendAgent ''R.md'')
       = ''<!-- agenthints:x:start -->'' @ [NL] @ ''# Test Hint'' @ [NL]
         @ ''<!-- agenthints:x:end -->''
   \<and> appendMode agentWithBoth
   \<and> content (transformForAgent ''# Test Hint'' ''x'' agentWithBoth ''R.md'')
       = ''<!-- agenthints:x:start -->'' @ [NL] @ ''---'' @ [NL] @ ''type: hint'' @ [NL]
         @ ''---'' @ [NL, NL] @ ''# Test Hint'' @ [NL] @ ''<!-- agenthints:x:end -->''
   \<and> sublist (sectionStart ''x'')
         (content (transformForAgent ''# Test Hint'' ''x'' agentWithBoth ''R.md''))
   \<and> sublist (sectionEnd ''x'')
         (content (transformForAgent ''# Test Hint'' ''x'' agentWithBoth ''R.md''))
   \<and> \<not> appendMode mockAgent \<and> header mockAgent = None \<and> transform mockAgent = None
   \<and> content (transformForAgent ''# Test Hint'' ''x'' mockAgent ''x.md'') = ''# Test Hint''
   \<and> \<not> sublist (sectionStart ''x'')
          (content (transformForAgent ''# Test Hint'' ''x'' mockAgent ''x.md''))"
proof -
  have h1: "appendMode mockAppendAgent" "appendMode agentWithBoth"
    by (simp_all add: mockAppendAgent_def agentWithBoth_def)
  have h2: "\<not> appendMode mockAgent" "header mockAgent = None" "transform mockAgent = None"
    by (simp_all add: mockAgent_def)
  have r1: "spec_rendered ''# Test Hint'' ''x'' mockAppendAgent = ''# Test Hint''"
    by (simp add: spec_rendered_def mockAppendAgent_def)
  have r2: "spec_rendered ''# Test Hint'' ''x'' agentWithBoth
              = ''---'' @ [NL] @ ''type: hint'' @ [NL] @ ''---'' @ [NL, NL] @ ''# Test Hint''"
    by (simp add: spec_rendered_def mockAppendAgent_def agentWithBoth_def)
  have h3: "\<not> sublist (sectionStart ''x'') ''# Test Hint''"
    using sublist_length_le [of "sectionStart ''x''" "''# Test Hint''"]
    by (auto simp: sectionStart_def)
  note t1 = transformForAgent_markers [of mockAppendAgent "''# Test Hint''" "''x''" "''R.md''"]
  note t2 = transformForAgent_markers [of agentWithBoth "''# Test Hint''" "''x''" "''R.md''"]
  note t3 = transformForAgent_markers [of mockAgent "''# Test Hint''" "''x''" "''x.md''"]
  from t1 h1 r1 have c1: "content (transformForAgent ''# Test Hint'' ''x'' mockAppendAgent ''R.md'')
       = ''<!-- agenthints:x:start -->'' @ [NL] @ ''# Test Hint'' @ [NL]
         @ ''<!-- agenthints:x:end -->''"
    by (simp add: sectionStart_def sectionEnd_def)
  from t2 h1 r2 have c2: "content (transformForAgent ''# Test Hint'' ''x'' agentWithBoth ''R.md'')
       = ''<!-- agenthints:x:start -->'' @ [NL] @ ''---'' @ [NL] @ ''type: hint'' @ [NL]
         @ ''---'' @ [NL, NL] @ ''# Test Hint'' @ [NL] @ ''<!-- agenthints:x:end -->''"
    by (simp add: sectionStart_def sectionEnd_def)
  from t2 h1 have c3: "sublist (sectionStart ''x'')
         (content (transformForAgent ''# Test Hint'' ''x'' agentWithBoth ''R.md''))
   \<and> sublist (sectionEnd ''x'')
         (content (transformForAgent ''# Test Hint'' ''x'' agentWithBoth ''R.md''))"
    by blast
  from t3 h2 have c4: "content (transformForAgent ''# Test Hint'' ''x'' mockAgent ''x.md'') = ''# Test Hint''"
    by blast
  from h1 h2 h3 c1 c2 c3 c4 show ?thesis by simp
qed

theorem transformForAgent_markers_counterexample:
  "\<not> appendMode mockAgent
   \<and> sublist (sectionStart ''x'')
        (content (transformForAgent sectionNew ''x'' mockAgent ''x.md''))
   \<and> sublist (sectionEnd ''x'')
        (content (transformForAgent sectionNew ''x'' mockAgent ''x.md''))"
proof -
  have c: "content (transformForAgent sectionNew ''x'' mockAgent ''x.md'')
             = sectionStart ''x'' @ [NL] @ ''NEW'' @ [NL] @ sectionEnd ''x''"
    by (simp add: transformForAgent_def resolveAgentHeader_def mockAgent_def sectionNew_def
          wrapInSection_def)
  have s1: "sublist (sectionStart ''x'') (sectionStart ''x'' @ [NL] @ ''NEW'' @ [NL] @ sectionEnd ''x'')"
    by (rule sublist_append_rightI)
  have s2: "sublist (sectionEnd ''x'') ((sectionStart ''x'' @ [NL] @ ''NEW'' @ [NL]) @ sectionEnd ''x'')"
    by (rule sublist_append_leftI)
  have na: "\<not> appendMode mockAgent" by (simp add: mockAgent_def)
  from s1 s2 na show ?thesis unfolding c by simp
qed


section \<open>Resolving a target path\<close>

text \<open>
  Claim C7. Let the process's working directory be absolute. \<open>resolvePath\<close> either
  returns a path or fails with the error that names the path as resolving outside the
  working directory. A returned path is the resolution itself (nothing is clamped), is
  absolute, has no \<^verbatim>\<open>.\<close> or \<^verbatim>\<open>..\<close> segment, and its segments extend those of the
  resolved working directory: it lies inside it. Whenever the resolution does not lie
  inside the working directory, \<open>resolvePath\<close> fails; so it does for
  \<^verbatim>\<open>../../etc/passwd\<close> against \<^verbatim>\<open>/home/user/project\<close>.
\<close>

theorem resolvePath_inside_or_error:
  assumes "prefix ''/'' procCwd"
  shows "(\<forall>p. resolvePath procCwd rel cwd = Inr p \<longrightarrow>
            p = pathResolve procCwd [baseDir procCwd cwd, rel]
            \<and> prefix ''/'' p
            \<and> prefix (segments (baseDir procCwd cwd)) (segments p)
            \<and> ''..'' \<notin> set (segments p) \<and> ''.'' \<notin> set (segments p))
         \<and> (\<forall>e. resolvePath procCwd rel cwd = Inl e \<longrightarrow>
              e = Error (''Path '' @ [DQ] @ rel @ [DQ]
                         @ '' resolves outside the working directory''))
         \<and> (\<not> prefix (segments (baseDir procCwd cwd))
                  (segments (pathResolve procCwd [baseDir procCwd cwd, rel])) \<longrightarrow>
              resolvePath procCwd rel cwd
                = Inl (Error (''Path '' @ [DQ] @ rel @ [DQ]
                              @ '' resolves outside the working directory'')))"
proof -
  let ?b = "baseDir procCwd cwd"
  let ?r = "pathResolve procCwd [?b, rel]"
  note seg = pathResolve_segments [OF assms, of "[?b, rel]"]
  have ins: "prefix (segments ?b) (segments ?r)" if "prefix (?b @ ''/'') ?r \<or> ?r = ?b"
    using that by (rule inside_segments)
  show ?thesis
  proof (cases "prefix (?b @ ''/'') ?r \<or> ?r = ?b")
    case True
    then have "resolvePath procCwd rel cwd = Inr ?r"
      by (auto simp: resolvePath_def Let_def)
    with seg ins [OF True] show ?thesis by simp
  next
    case False
    then have "resolvePath procCwd rel cwd
                = Inl (Error (''Path '' @ [DQ] @ rel @ [DQ]
                              @ '' resolves outside the working directory''))"
      by (auto simp: resolvePath_def Let_def)
    then show ?thesis by simp
  qed
qed


theorem resolvePath_inside_or_error_witness:
  "prefix ''/'' ''/home/user/project''
   \<and> resolvePath ''/home/user/project'' ''AGENTS.md'' None = Inr ''/home/user/project/AGENTS.md''
   \<and> prefix (segments (baseDir ''/home/user/project'' None))
        (segments ''/home/user/project/AGENTS.md'')
   \<and> \<not> prefix (segments (baseDir ''/'' (Some ''/home/user/project'')))
          (segments (pathResolve ''/''
             [baseDir ''/'' (Some ''/home/user/project''), ''../../etc/passwd'']))
   \<and> resolvePath ''/'' ''../../etc/passwd'' (Some ''/home/user/project'')
       = Inl (Error (''Path '' @ [DQ] @ ''../../etc/passwd'' @ [DQ]
                     @ '' resolves outside the working directory''))"
proof -
  have h0: "prefix ''/'' ''/home/user/project''" and h0': "prefix ''/'' ''/''" by simp_all
  have h1: "resolvePath ''/home/user/project'' ''AGENTS.md'' None
              = Inr ''/home/user/project/AGENTS.md''"
    by code_simp
  have h2: "\<not> prefix (segments (baseDir ''/'' (Some ''/home/user/project'')))
          (segments (pathResolve ''/''
             [baseDir ''/'' (Some ''/home/user/project''), ''../../etc/passwd'']))"
    by code_simp
  show ?thesis
    using h0 h1 h2
      resolvePath_inside_or_error [OF h0, of "''AGENTS.md''" None]
      resolvePath_inside_or_error [OF h0', of "''../../etc/passwd''" "Some ''/home/user/project''"]
    by blast
qed


section \<open>The cache gate of the content fetch\<close>

text \<open>
  Claim C2. In remote mode, for an expected hash that is absent or a non-empty text
  (the callers stop an empty hash before the call), \<open>fetchHintContent\<close> uses the cached
  entry, returning its data and requesting nothing, exactly when the entry exists, is
  not expired under the hint TTL, and either no expected hash is given or the cached
  hash equals it. In every other case, also when only the hashes differ or only the
  TTL has passed, it requests the content's URL; the body of an ok response is written
  to the cache file together with the expected hash and returned. When the response is
  not ok or the network rejects, the call fails and the cache stays as it was; when the
  cache file cannot be written, the call fails with the error of the write.
\<close>

theorem fetchHintContent_cache_gate:
  fixes e :: env and w :: "string world"
    and hintPath hintFile :: string and expectedSha256 :: "string option"
    and cachePath url :: string and result :: "(jsError + string) \<times> string world"
    and usable :: bool
  defines "cachePath \<equiv> getCachePath e (''hints/'' @ hintPath @ ''/content'')"
    and "url \<equiv> ''https://agenthints.tech/registry/hints/'' @ hintPath @ ''/''
                  @ replaceStr hintFile ''./'' []"
    and "result \<equiv> fetchHintContent e w hintPath hintFile expectedSha256"
    and "usable \<equiv> (\<exists>c. cache w cachePath = Some c
                       \<and> \<not> isExpired (nowAtCheck e) (timestamp c) HINT_TTL_MS
                       \<and> (expectedSha256 = None \<or> sha256 c = expectedSha256))"
  assumes remote: "LOCAL_REGISTRY e = None \<or> LOCAL_REGISTRY e = Some []"
    and given: "expectedSha256 \<noteq> Some []"
  shows "(usable \<longrightarrow> result = (Inr (data (the (cache w cachePath))), w))
       \<and> (\<not> usable \<longrightarrow>
            requests (snd result) = requests w @ [url]
            \<and> (\<forall>r. net e url = Inr r \<and> ok r \<and> diskWrite e cachePath = None \<longrightarrow>
                  fst result = Inr (body r)
                  \<and> cache (snd result)
                      = (cache w)(cachePath \<mapsto> \<lparr> data = body r, timestamp = nowAtWrite e,
                                            sha256 = expectedSha256 \<rparr>))
            \<and> (\<forall>r err u. net e url = Inr r \<and> ok r \<and> diskWrite e cachePath = Some (err, u) \<longrightarrow>
                  fst result = Inl err)
            \<and> (\<forall>r. net e url = Inr r \<and> \<not> ok r \<longrightarrow>
                  fst result = Inl (Error (''Failed to fetch hint content: '' @ statusText r))
                  \<and> cache (snd result) = cache w)
            \<and> (\<forall>err. net e url = Inl err \<longrightarrow>
                  fst result = Inl err \<and> cache (snd result) = cache w))"
proof -
  from remote have r: "\<not> truthy (LOCAL_REGISTRY e)" by (auto simp: truthy_def)
  from given have t: "truthy expectedSha256 = (expectedSha256 \<noteq> None)"
    by (cases expectedSha256) (auto simp: truthy_def)
  show ?thesis
    using r t unfolding usable_def result_def url_def cachePath_def
    by (cases "cache w (getCachePath e (''hints/'' @ hintPath @ ''/content''))")
       (auto simp: fetchHintContent_def Let_def readCache_def writeCache_def
          REGISTRY_BASE_URL_def split: sum.splits option.splits)
qed

theorem fetchHintContent_cache_gate_witness:
  "LOCAL_REGISTRY (remoteEnv okResponse) = None
   \<and> Some ''old-sha'' \<noteq> Some [] \<and> Some ''new-sha'' \<noteq> Some []
   \<and> fetchHintContent (remoteEnv okResponse) contentWorld ''prisma'' ''./hint.md'' (Some ''old-sha'')
       = (Inr ''old content'', contentWorld)
   \<and> fst (fetchHintContent (remoteEnv okResponse) contentWorld ''prisma'' ''./hint.md''
            (Some ''new-sha'')) = Inr ''new content''
   \<and> requests (snd (fetchHintContent (remoteEnv okResponse) contentWorld ''prisma'' ''./hint.md''
            (Some ''new-sha''))) = [''https://agenthints.tech/registry/hints/prisma/hint.md'']
   \<and> cache (snd (fetchHintContent (remoteEnv okResponse) contentWorld ''prisma'' ''./hint.md''
            (Some ''new-sha''))) ''/tmp/agenthints-cache/hints/prisma/content.json''
       = Some \<lparr> data = ''new content'', timestamp = ofInt 1700003600000,
                sha256 = Some ''new-sha'' \<rparr>
   \<and> fst (fetchHintContent (readOnlyEnv okResponse) contentWorld ''prisma'' ''./hint.md''
            (Some ''new-sha'')) = Inl (SystemError ''EACCES'')
   \<and> isExpired (nowAtCheck (lateEnv okResponse)) (timestamp cachedContent) HINT_TTL_MS
   \<and> requests (snd (fetchHintContent (lateEnv okResponse) contentWorld ''prisma'' ''./hint.md''
            (Some ''old-sha''))) = [''https://agenthints.tech/registry/hints/prisma/hint.md'']"
proof -
  let ?p = "''/tmp/agenthints-cache/hints/prisma/content.json''"
  let ?u = "''https://agenthints.tech/registry/hints/prisma/hint.md''"
  have r: "LOCAL_REGISTRY (remoteEnv okResponse) = None \<or> LOCAL_REGISTRY (remoteEnv okResponse) = Some []"
    "LOCAL_REGISTRY (readOnlyEnv okResponse) = None \<or> LOCAL_REGISTRY (readOnlyEnv okResponse) = Some []"
    by (simp_all add: evReg)
  have g: "Some ''old-sha'' \<noteq> Some []" "Some ''new-sha'' \<noteq> Some []" by simp_all
  have p: "getCachePath (remoteEnv okResponse) (''hints/'' @ ''prisma'' @ ''/content'') = ?p"
    "getCachePath (readOnlyEnv okResponse) (''hints/'' @ ''prisma'' @ ''/content'') = ?p"
    by code_simp+
  have f: "replaceStr ''./hint.md'' ''./'' [] = ''hint.md''" by (simp add: replaceStr_def)
  have x: "\<not> isExpired (nowAtCheck (remoteEnv okResponse)) (timestamp cachedContent) HINT_TTL_MS"
    "\<not> isExpired (nowAtCheck (readOnlyEnv okResponse)) (timestamp cachedContent) HINT_TTL_MS"
    by (simp_all add: evReg HINT_TTL_MS_def isExpired_ofInt)
  have c: "cache contentWorld ?p = Some cachedContent" "sha256 cachedContent = Some ''old-sha''"
    "data cachedContent = ''old content''" "requests contentWorld = []"
    by (simp_all add: evReg)
  have n: "net (remoteEnv okResponse) ?u = Inr okResponse"
    "net (readOnlyEnv okResponse) ?u = Inr okResponse" "ok okResponse"
    "body okResponse = ''new content''"
    "nowAtWrite (remoteEnv okResponse) = ofInt 1700003600000"
    "diskWrite (remoteEnv okResponse) ?p = None"
    "diskWrite (readOnlyEnv okResponse) ?p = Some (SystemError ''EACCES'', False)"
    by (simp_all add: evReg)
  from fetchHintContent_cache_gate [OF r(1) g(1), of contentWorld "''prisma''" "''./hint.md''"]
  have c1: "fetchHintContent (remoteEnv okResponse) contentWorld ''prisma'' ''./hint.md'' (Some ''old-sha'')
       = (Inr ''old content'', contentWorld)"
    unfolding p by (simp add: c x)
  from fetchHintContent_cache_gate [OF r(1) g(2), of contentWorld "''prisma''" "''./hint.md''"]
  have c2: "fst (fetchHintContent (remoteEnv okResponse) contentWorld ''prisma'' ''./hint.md''
            (Some ''new-sha'')) = Inr ''new content''
   \<and> requests (snd (fetchHintContent (remoteEnv okResponse) contentWorld ''prisma'' ''./hint.md''
            (Some ''new-sha''))) = [?u]
   \<and> cache (snd (fetchHintContent (remoteEnv okResponse) contentWorld ''prisma'' ''./hint.md''
            (Some ''new-sha''))) ?p
       = Some \<lparr> data = ''new content'', timestamp = ofInt 1700003600000,
                sha256 = Some ''new-sha'' \<rparr>"
    unfolding p by (simp add: c f n)
  from fetchHintContent_cache_gate [OF r(2) g(2), of contentWorld "''prisma''" "''./hint.md''"]
  have c3: "fst (fetchHintContent (readOnlyEnv okResponse) contentWorld ''prisma'' ''./hint.md''
            (Some ''new-sha'')) = Inl (SystemError ''EACCES'')"
    unfolding p by (auto simp: c f n)
  have rl: "LOCAL_REGISTRY (lateEnv okResponse) = None \<or> LOCAL_REGISTRY (lateEnv okResponse) = Some []"
    by (simp add: evReg)
  have pl: "getCachePath (lateEnv okResponse) (''hints/'' @ ''prisma'' @ ''/content'') = ?p"
    by code_simp
  have xl: "isExpired (nowAtCheck (lateEnv okResponse)) (timestamp cachedContent) HINT_TTL_MS"
    by (simp add: evReg HINT_TTL_MS_def isExpired_ofInt)
  from fetchHintContent_cache_gate [OF rl g(1), of contentWorld "''prisma''" "''./hint.md''"]
  have c4: "requests (snd (fetchHintContent (lateEnv okResponse) contentWorld ''prisma'' ''./hint.md''
            (Some ''old-sha''))) = [?u]"
    unfolding pl by (simp add: c f xl)
  have "LOCAL_REGISTRY (remoteEnv okResponse) = None" by (simp add: evReg)
  with g c1 c2 c3 c4 xl show ?thesis by blast
qed


section \<open>Errors of the metadata fetch\<close>

text \<open>
  Claim C8. In remote mode, when the cache holds no fresh entry and the registry
  answers with a status outside 200 to 299: on 404 \<open>fetchHintMetadata\<close> fails with the
  error whose message names the slug and tells to run \<^verbatim>\<open>agenthints list\<close>; on every
  other status it fails with the error \<^verbatim>\<open>Failed to fetch hint metadata:\<close> followed by
  the status text. The first error differs from the second for every status text, and
  nothing is cached.
\<close>

theorem fetchHintMetadata_errors:
  assumes remote: "\<not> truthy (LOCAL_REGISTRY e)"
    and stale: "\<forall>c. cache w (getCachePath e (''hints/'' @ hintPath @ ''/meta'')) = Some c \<longrightarrow>
                  isExpired (nowAtCheck e) (timestamp c) HINT_TTL_MS"
    and resp: "net e (''https://agenthints.tech/registry/hints/'' @ hintPath @ ''/meta.json'') = Inr r"
    and nok: "\<not> ok r"
  shows "(status r = 404 \<longrightarrow>
            fst (fetchHintMetadata parse e w hintPath)
              = Inl (Error (''Hint '' @ [DQ] @ hintPath @ [DQ]
                      @ '' not found in registry. Run '' @ [DQ] @ ''agenthints list''
                      @ [DQ] @ '' to see available hints.'')))
       \<and> (status r \<noteq> 404 \<longrightarrow>
            fst (fetchHintMetadata parse e w hintPath)
              = Inl (Error (''Failed to fetch hint metadata: '' @ statusText r)))
       \<and> (\<forall>t. Error (''Hint '' @ [DQ] @ hintPath @ [DQ]
                      @ '' not found in registry. Run '' @ [DQ] @ ''agenthints list''
                      @ [DQ] @ '' to see available hints.'')
              \<noteq> Error (''Failed to fetch hint metadata: '' @ t))
       \<and> cache (snd (fetchHintMetadata parse e w hintPath)) = cache w"
proof (cases "cache w (getCachePath e (''hints/'' @ hintPath @ ''/meta''))")
  case None
  with remote resp nok show ?thesis
    by (simp add: fetchHintMetadata_def Let_def readCache_def REGISTRY_BASE_URL_def)
next
  case (Some c)
  with stale have "isExpired (nowAtCheck e) (timestamp c) HINT_TTL_MS" by simp
  with Some remote resp nok show ?thesis
    by (simp add: fetchHintMetadata_def Let_def readCache_def REGISTRY_BASE_URL_def)
qed

theorem fetchHintMetadata_errors_witness:
  "\<not> truthy (LOCAL_REGISTRY (remoteEnv notFoundResponse))
   \<and> \<not> ok notFoundResponse \<and> status notFoundResponse = 404
   \<and> fst (fetchHintMetadata (\<lambda>t. Some t) (remoteEnv notFoundResponse) emptyWorld ''prisma'')
       = Inl (Error (''Hint '' @ [DQ] @ ''prisma'' @ [DQ]
                      @ '' not found in registry. Run '' @ [DQ] @ ''agenthints list''
                      @ [DQ] @ '' to see available hints.''))
   \<and> \<not> ok serverErrorResponse \<and> status serverErrorResponse \<noteq> 404
   \<and> fst (fetchHintMetadata (\<lambda>t. Some t) (remoteEnv serverErrorResponse) emptyWorld ''prisma'')
       = Inl (Error ''Failed to fetch hint metadata: Internal Server Error'')"
proof -
  have r: "\<not> truthy (LOCAL_REGISTRY (remoteEnv resp))" for resp by (simp add: evReg)
  have s: "\<forall>c. cache (emptyWorld :: string world)
                (getCachePath (remoteEnv resp) (''hints/'' @ ''prisma'' @ ''/meta'')) = Some c \<longrightarrow>
             isExpired (nowAtCheck (remoteEnv resp)) (timestamp c) HINT_TTL_MS" for resp
    by (simp add: emptyWorld_def)
  have n: "net (remoteEnv resp) (''https://agenthints.tech/registry/hints/'' @ ''prisma'' @ ''/meta.json'')
             = Inr resp" for resp
    by (simp add: remoteEnv_def)
  have k1: "\<not> ok notFoundResponse" "status notFoundResponse = 404" by (simp_all add: evReg)
  have k2: "\<not> ok serverErrorResponse" "status serverErrorResponse \<noteq> 404"
    "statusText serverErrorResponse = ''Internal Server Error''" by (simp_all add: evReg)
  show ?thesis
    using k1 k2 r [of notFoundResponse]
      fetchHintMetadata_errors [OF r s n k1(1), of "\<lambda>t. Some t"]
      fetchHintMetadata_errors [OF r s n k2(1), of "\<lambda>t. Some t"]
    by simp
qed

end
